theory Spec2Isabelle
  imports Complex_Main "HOL-Library.Word" "HOL-Library.Sublist"
begin

unbundle bit_operations_syntax

section \<open>Numeric conventions\<close>

text \<open>
  The receiver computes with \<open>float\<close> and \<open>double\<close>. Their values are idealised as
  real numbers: every arithmetic operation is the exact one, and a conversion to an integer
  type is the exact truncation. Rounding error, infinities and NaN are outside the model.
  The unsigned counters of the class (\<open>unsigned\<close>) are natural numbers and its \<open>int32_t\<close>
  counters are integers: their overflow, after \<open>2^31\<close> blocks or beacons, is not modelled.
  \<open>size_t\<close> is a 64-bit word, because the index arithmetic of the cycle extractor relies on
  how it wraps.
\<close>

type_synonym byte = "8 word"
type_synonym size_t = "64 word"

text \<open>C's \<open>round\<close>: to the nearest integer, halfway cases away from zero.\<close>

definition c_round :: "real \<Rightarrow> int" where
  "c_round x = (if 0 \<le> x then \<lfloor>x + 1/2\<rfloor> else \<lceil>x - 1/2\<rceil>)"

text \<open>Conversion of a floating-point value to a signed integer type: truncation towards zero.\<close>

definition c_trunc :: "real \<Rightarrow> int" where
  "c_trunc x = (if 0 \<le> x then \<lfloor>x\<rfloor> else \<lceil>x\<rceil>)"

section \<open>Angles in turns\<close>

text \<open>
  \<^verbatim>\<open>DeciAngle normalize_deciangle(DeciAngle angle) { return angle - int(round(angle)); }\<close>
\<close>

type_synonym DeciAngle = real

definition normalize_deciangle :: "DeciAngle \<Rightarrow> DeciAngle" where
  "normalize_deciangle angle = angle - of_int (c_round angle)"

section \<open>Data of the receiver\<close>

text \<open>
  Macro constants of \<^verbatim>\<open>receiver.cpp\<close>.
\<close>

abbreviation (input) MAX_TRACKING_ANGLE_DIFF :: real where "MAX_TRACKING_ANGLE_DIFF \<equiv> 50"
abbreviation (input) TRACKING_ANGLE_DIFF_FACTOR :: real where "TRACKING_ANGLE_DIFF_FACTOR \<equiv> 0.2"
abbreviation (input) AVG_ANGLE_WEIGHT :: real where "AVG_ANGLE_WEIGHT \<equiv> 0.1"
abbreviation (input) BEACON_INTERVAL_SEC :: real where "BEACON_INTERVAL_SEC \<equiv> 1"
abbreviation (input) MAX_CAPTURE_TIME :: real where "MAX_CAPTURE_TIME \<equiv> 10.1"
abbreviation (input) PREAMP_OFF_TIME :: real where "PREAMP_OFF_TIME \<equiv> 2.0"
abbreviation (input) PREAMP_OFF_SKIP :: real where "PREAMP_OFF_SKIP \<equiv> 0.2"
abbreviation (input) BEACON_CARRIER_TRIGGER_FACTOR :: real where "BEACON_CARRIER_TRIGGER_FACTOR \<equiv> 0.8"
abbreviation (input) AVG_DCAMPL_WEIGHT :: real where "AVG_DCAMPL_WEIGHT \<equiv> 0.1"

text \<open>
  An assertion that fails aborts the process, and a copy or an element-wise multiply that
  leaves its buffer is undefined behaviour: both are outcomes of the model.
\<close>

datatype error = AssertionFailed | OutOfBounds

text \<open>
  The fields of \<open>fargs_t\<close> that the receiver reads, and the correlation block size that
  \<open>main\<close> passes to the constructor. The stride \<open>block_len - history_len\<close> is taken with
  \<open>history_len \<le> block_len\<close>, and the correlation block size is positive.
\<close>

record config =
  block_len :: nat
  history_len :: nat
  skip :: nat
  sdr_sample_rate :: nat
  sdr_freq :: nat
  input_file :: string
  corr_size :: size_t

text \<open>
  One block as the carrier detector hands it out (\<open>fastcard_data_t\<close>): its \<open>block_len\<close>
  samples, the time stamp of the block, and the result of the carrier detection that
  \<open>process()\<close> runs on it.
\<close>

record fastcard_data =
  samples :: "complex list"
  tv_sec :: nat
  tv_usec :: nat
  detected :: bool
  argmax :: nat
  fft_power :: "real list"

text \<open>The result of the correlation detector (\<open>CorrDetection\<close>).\<close>

record CorrDetection =
  corr_detected :: bool
  peak_idx :: nat
  peak_offset :: real
  peak_power :: real
  noise_power :: real

text \<open>
  The collaborators whose code is outside \<^verbatim>\<open>receiver.cpp\<close> are parameters: the forward
  FFT (\<open>FFT::execute\<close>, from its input buffer to its output buffer), the correlation
  detector (\<open>CorrDetector::detect\<close>), the parabolic interpolation around a bin of the power
  spectrum (\<open>CorrDetector::interpolate_parabolic\<close>), and what the platform yields when a
  floating-point value that \<open>size_t\<close> cannot hold is converted to it (C++ leaves that
  conversion undefined).
\<close>

record externals =
  fft_execute :: "complex list \<Rightarrow> complex list"
  corr_detect :: "complex list \<Rightarrow> real \<Rightarrow> CorrDetection"
  interpolate_parabolic :: "real list \<Rightarrow> nat \<Rightarrow> real"
  undefined_size_t :: "real \<Rightarrow> size_t"

definition float_to_size_t :: "externals \<Rightarrow> real \<Rightarrow> size_t" where
  "float_to_size_t ext x =
     (if - 1 < x \<and> x < 2 ^ 64 then word_of_int (c_trunc x) else undefined_size_t ext x)"

section \<open>Numerically controlled oscillator\<close>

text \<open>
  Modelled from the spec: \<open>SineLookupNCO\<close> of \<^verbatim>\<open>sine_lookup.h\<close>, which is not among the
  sources. The spec gives \<open>multiply\<close> as the element-wise product with
  \<open>exp(j (phi + i dphi))\<close> followed by the advance of \<open>phi\<close> by \<open>len dphi\<close>, and
  \<open>adjust_phase\<close> as the addition of an extra phase.
\<close>

record SineLookupNCO =
  phase :: real
  phase_inc :: real

definition expj_multiply :: "SineLookupNCO \<Rightarrow> complex list \<Rightarrow> complex list \<times> SineLookupNCO" where
  "expj_multiply nco src =
     (map (\<lambda>i. cis (phase nco + real i * phase_inc nco) * src ! i) [0..<length src],
      nco\<lparr>phase := phase nco + real (length src) * phase_inc nco\<rparr>)"

definition adjust_phase :: "SineLookupNCO \<Rightarrow> real \<Rightarrow> SineLookupNCO" where
  "adjust_phase nco extra = nco\<lparr>phase := phase nco + extra\<rparr>"

section \<open>Frequency shifts\<close>

text \<open>
  \<open>freq_shift\<close> multiplies the first \<open>len\<close> samples of \<open>src\<close> by the oscillator.
\<close>

definition freq_shift :: "complex list \<Rightarrow> nat \<Rightarrow> real \<Rightarrow> DeciAngle \<Rightarrow> complex list" where
  "freq_shift src len shift_freq shift_phase =
     (let nco = \<lparr>phase = 2 * pi * shift_phase, phase_inc = 2 * pi * shift_freq / real len\<rparr>
      in fst (expj_multiply nco (take len src)))"

text \<open>
  \<open>fft_shift\<close>: the split point is computed in \<open>size_t\<close>, where the sum wraps. The first
  multiply covers \<open>pos_len\<close> elements and the second the \<open>len - pos_len\<close> after them; when
  \<open>pos_len\<close> exceeds \<open>len\<close> they leave the buffers of \<open>len\<close> elements.
\<close>

definition pos_len :: "size_t \<Rightarrow> size_t \<Rightarrow> size_t" where
  "pos_len len carrier_offset = (len + 1) div 2 + carrier_offset"

definition fft_shift ::
  "complex list \<Rightarrow> size_t \<Rightarrow> real \<Rightarrow> DeciAngle \<Rightarrow> size_t \<Rightarrow> error + complex list" where
  "fft_shift src len shift_freq shift_phase carrier_offset =
     (let nco = \<lparr>phase = 2 * pi * shift_phase,
                 phase_inc = 2 * pi * shift_freq / real (unat len)\<rparr>;
          p = pos_len len carrier_offset
      in if len < p then Inl OutOfBounds
         else
           let (dest1, nco1) = expj_multiply nco (take (unat p) src);
               nco2 = adjust_phase nco1 (- 2 * pi * shift_freq);
               (dest2, nco3) = expj_multiply nco2 (take (unat (len - p)) (drop (unat p) src))
           in Inr (dest1 @ dest2))"

definition calculate_dc :: "complex list \<Rightarrow> nat \<Rightarrow> complex" where
  "calculate_dc signal len = sum_list (take len signal)"

section \<open>Trace file writer\<close>

text \<open>
  The file is a sequence of bytes and of IEEE-754 values, which are kept as values. The
  structs are packed and the integers are little endian, as the source assumes.
\<close>

datatype file_item = Byte byte | Float32 real | Float64 real

definition le_bytes :: "nat \<Rightarrow> nat \<Rightarrow> file_item list" where
  "le_bytes n v = map (\<lambda>i. Byte (of_nat (v div 256 ^ i))) [0..<n]"

record CorxFileHeader =
  slice_start_idx :: "16 word"
  slice_size :: "16 word"

definition file_header_bytes :: "CorxFileHeader \<Rightarrow> file_item list" where
  "file_header_bytes header =
     [Byte (ucast (slice_start_idx header)), Byte (ucast (drop_bit 8 (slice_start_idx header))),
      Byte (ucast (slice_size header)), Byte (ucast (drop_bit 8 (slice_size header)))]"

text \<open>
  \<open>CorxBeaconHeader\<close>; the fields carry the prefix \<open>hdr_\<close> to keep them apart from the
  members of the detector.
\<close>

record CorxBeaconHeader =
  hdr_soa :: real
  hdr_timestamp_sec :: nat
  hdr_timestamp_msec :: nat
  hdr_beacon_amplitude :: nat
  hdr_beacon_noise :: nat
  hdr_clock_error :: real
  hdr_carrier_pos :: real
  hdr_carrier_amplitude :: nat
  hdr_preamp_on :: bool

definition beacon_header_bytes :: "CorxBeaconHeader \<Rightarrow> file_item list" where
  "beacon_header_bytes header =
     [Float64 (hdr_soa header)] @
     le_bytes 8 (hdr_timestamp_sec header) @
     le_bytes 2 (hdr_timestamp_msec header) @
     le_bytes 4 (hdr_beacon_amplitude header) @
     le_bytes 4 (hdr_beacon_noise header) @
     [Float32 (hdr_clock_error header), Float32 (hdr_carrier_pos header)] @
     le_bytes 4 (hdr_carrier_amplitude header) @
     [Byte (if hdr_preamp_on header then 1 else 0)]"

definition sample_items :: "complex list \<Rightarrow> file_item list" where
  "sample_items data = concat (map (\<lambda>z. [Float32 (Re z), Float32 (Im z)]) data)"

text \<open>
  The calls that reach the writer are recorded in \<open>calls\<close>, whether or not it has a sink.
  This list is not a member of the class: it is kept to count calls.
\<close>

datatype writer_call =
    WriteFileHeader CorxFileHeader
  | WriteCycleStart CorxBeaconHeader
  | WriteCycleBlock int "complex list" "16 word"
  | WriteCycleStop

record CorxFileWriter =
  out :: "file_item list option"
  slice_size_member :: int
  calls :: "writer_call list"

definition is_void :: "CorxFileWriter \<Rightarrow> bool" where
  "is_void w = (out w = None)"

definition fwrite :: "CorxFileWriter \<Rightarrow> file_item list \<Rightarrow> CorxFileWriter" where
  "fwrite w items = w\<lparr>out := map_option (\<lambda>f. f @ items) (out w)\<rparr>"

definition called :: "CorxFileWriter \<Rightarrow> writer_call \<Rightarrow> CorxFileWriter" where
  "called w c = w\<lparr>calls := calls w @ [c]\<rparr>"

abbreviation (input) version :: byte where "version \<equiv> 0x01"

definition write_file_header :: "CorxFileWriter \<Rightarrow> CorxFileHeader \<Rightarrow> CorxFileWriter" where
  "write_file_header w0 header =
     (let w = called w0 (WriteFileHeader header) in
      if is_void w then w
      else
        let w1 = fwrite w (map (\<lambda>c. Byte (of_char c)) ''CORX'');
            w2 = fwrite w1 [Byte version];
            w3 = fwrite w2 (file_header_bytes header)
        in w3\<lparr>slice_size_member := uint (slice_size header)\<rparr>)"

definition write_cycle_start :: "CorxFileWriter \<Rightarrow> CorxBeaconHeader \<Rightarrow> CorxFileWriter" where
  "write_cycle_start w0 header =
     (let w = called w0 (WriteCycleStart header) in
      if is_void w then w else fwrite w (beacon_header_bytes header))"

definition write_cycle_block_internal ::
  "CorxFileWriter \<Rightarrow> int \<Rightarrow> complex list \<Rightarrow> 16 word \<Rightarrow> CorxFileWriter" where
  "write_cycle_block_internal w phase_error data len =
     fwrite (fwrite w [Byte (of_int phase_error)]) (sample_items (take (unat len) data))"

definition write_cycle_block ::
  "CorxFileWriter \<Rightarrow> int \<Rightarrow> complex list \<Rightarrow> 16 word \<Rightarrow> error + CorxFileWriter" where
  "write_cycle_block w0 phase_error data len =
     (let w = called w0 (WriteCycleBlock phase_error data len) in
      if is_void w then Inr w
      else if uint len \<noteq> slice_size_member w then Inl AssertionFailed
      else if phase_error = - 128 then Inl AssertionFailed
      else Inr (write_cycle_block_internal w phase_error data len))"

definition write_cycle_stop :: "CorxFileWriter \<Rightarrow> CorxFileWriter" where
  "write_cycle_stop w0 =
     (let w = called w0 WriteCycleStop in
      if is_void w then w else write_cycle_block_internal w (- 128) [] 0)"

section \<open>The detector\<close>

text \<open>
  The members of \<open>ArrayDetector\<close>, without the trailing underscore of the source. The
  members that the constructor sets once and nothing assigns afterwards (\<open>num_cycles_\<close>,
  \<open>slice_start_\<close>, \<open>slice_len_\<close>, \<open>skip_beacon_padding_\<close>, \<open>carrier_ref_\<close>) are
  functions of the configuration. \<open>reader_cancelled\<close> and \<open>bias_tee\<close> are the state of
  the reader behind \<open>carrier_det_\<close>: its cancel flag and the bias tee of the tuner.
\<close>

record ArrayDetector =
  block_idx :: nat
  blocks_skip :: nat
  last_block :: nat
  preamp_off_block :: nat
  sample_phase :: DeciAngle
  carrier_pos :: real
  detected_carrier :: bool
  dc_angle :: DeciAngle
  prev_dc_angle :: DeciAngle
  dc_ampl :: real
  clock_error :: real
  avg_dc_angle :: real
  avg_dc_ampl :: real
  beacon :: int
  soa :: real
  prev_soa :: real
  cycle :: int
  num_phase_errors :: int
  synced_signal :: "complex list"
  writer :: CorxFileWriter
  reader_cancelled :: bool
  bias_tee :: bool

abbreviation (input) skip_beacon_padding :: int where "skip_beacon_padding \<equiv> 6000"
abbreviation (input) carrier_ref :: real where "carrier_ref \<equiv> - 277800"

text \<open>
  \<open>num_cycles_ = (sdr_sample_rate - 2 * skip_beacon_padding_) / corr_size_\<close>, for a
  sample rate of at least twice the padding.
\<close>

definition num_cycles :: "config \<Rightarrow> int" where
  "num_cycles cfg = int ((sdr_sample_rate cfg - 2 * 6000) div unat (corr_size cfg))"

text \<open>
  With \<open>OUTPUT_WINDOW_START = 0\<close> and \<open>OUTPUT_WINDOW_LEN = -1\<close> the slice is the whole
  correlation block.
\<close>

definition slice_start :: "config \<Rightarrow> int" where
  "slice_start cfg = max 0 0"

definition slice_len :: "config \<Rightarrow> int" where
  "slice_len cfg = uint (corr_size cfg)"

definition stride :: "config \<Rightarrow> nat" where
  "stride cfg = block_len cfg - history_len cfg"

text \<open>
  The constructor. The members without an initialiser (\<open>prev_dc_angle_\<close>, \<open>dc_ampl_\<close>,
  \<open>clock_error_\<close>, \<open>num_phase_errors_\<close>) and the contents of the signal buffer start
  with the indeterminate values of \<open>u\<close>. The writer has a sink with an empty file, or none.
\<close>

definition new_ArrayDetector :: "config \<Rightarrow> bool \<Rightarrow> ArrayDetector \<Rightarrow> ArrayDetector" where
  "new_ArrayDetector cfg has_sink u =
     u\<lparr>block_idx := 0, blocks_skip := skip cfg, last_block := 0, preamp_off_block := 0,
       sample_phase := 0, carrier_pos := 0, detected_carrier := False, dc_angle := 0,
       avg_dc_angle := 0, avg_dc_ampl := 0, beacon := - 1, soa := 0, prev_soa := 0,
       cycle := - 1,
       writer := \<lparr>out = (if has_sink then Some [] else None), slice_size_member = 0,
                  calls = []\<rparr>,
       reader_cancelled := False\<rparr>"

definition set_bias_tee :: "config \<Rightarrow> bool \<Rightarrow> ArrayDetector \<Rightarrow> bool \<times> ArrayDetector" where
  "set_bias_tee cfg on s =
     (if input_file cfg \<noteq> ''rtlsdr'' then (False, s) else (True, s\<lparr>bias_tee := on\<rparr>))"

definition start :: "config \<Rightarrow> ArrayDetector \<Rightarrow> ArrayDetector" where
  "start cfg s =
     (let s1 = s\<lparr>detected_carrier := False\<rparr>;
          s2 = snd (set_bias_tee cfg True s1)
      in s2\<lparr>writer := write_file_header (writer s2)
                \<lparr>slice_start_idx = word_of_int (slice_start cfg),
                 slice_size = word_of_int (slice_len cfg)\<rparr>\<rparr>)"

subsection \<open>Carrier recovery\<close>

text \<open>The frequency shift and the DC measurement that both branches perform.\<close>

definition shift_and_measure :: "config \<Rightarrow> fastcard_data \<Rightarrow> ArrayDetector \<Rightarrow> ArrayDetector" where
  "shift_and_measure cfg blk s =
     (let synced = freq_shift (samples blk) (block_len cfg) (- carrier_pos s) (sample_phase s);
          dc = calculate_dc synced (block_len cfg)
      in s\<lparr>synced_signal := synced, dc_ampl := cmod dc,
           dc_angle := normalize_deciangle (Arg dc / pi / 2)\<rparr>)"

text \<open>The branch of \<open>recover_carrier\<close> taken while the carrier is detected.\<close>

definition track_carrier :: "config \<Rightarrow> fastcard_data \<Rightarrow> ArrayDetector \<Rightarrow> ArrayDetector" where
  "track_carrier cfg blk s =
     (let s1 = shift_and_measure cfg blk (s\<lparr>prev_dc_angle := dc_angle s\<rparr>);
          angle_diff = normalize_deciangle (dc_angle s1 - prev_dc_angle s1)
      in if angle_diff * 360 > MAX_TRACKING_ANGLE_DIFF
         then s1\<lparr>detected_carrier := False\<rparr>
         else s1\<lparr>carrier_pos := carrier_pos s1 + angle_diff * TRACKING_ANGLE_DIFF_FACTOR\<rparr>)"

text \<open>The signed carrier position computed from the detection.\<close>

definition signed_carrier_pos :: "config \<Rightarrow> nat \<Rightarrow> real \<Rightarrow> real" where
  "signed_carrier_pos cfg m carrier_offset =
     (let p = real m + carrier_offset
      in if p > real (block_len cfg div 2) then p - real (block_len cfg) else p)"

text \<open>The branch of \<open>recover_carrier\<close> taken while no carrier is detected.\<close>

definition detect_carrier ::
  "externals \<Rightarrow> config \<Rightarrow> fastcard_data \<Rightarrow> ArrayDetector \<Rightarrow> ArrayDetector" where
  "detect_carrier ext cfg blk s =
     (if detected blk then
        let carrier_offset = interpolate_parabolic ext (fft_power blk) (argmax blk);
            s1 = s\<lparr>carrier_pos := signed_carrier_pos cfg (argmax blk) carrier_offset,
                   detected_carrier := True\<rparr>
        in shift_and_measure cfg blk s1
      else s)"

definition recover_carrier ::
  "externals \<Rightarrow> config \<Rightarrow> fastcard_data \<Rightarrow> ArrayDetector \<Rightarrow> bool \<times> ArrayDetector" where
  "recover_carrier ext cfg blk s =
     (let s1 = (if detected_carrier s then track_carrier cfg blk s else s);
          s2 = (if \<not> detected_carrier s1 then detect_carrier ext cfg blk s1 else s1)
      in (detected_carrier s2, s2))"

subsection \<open>Beacon detection\<close>

definition find_beacon :: "externals \<Rightarrow> config \<Rightarrow> ArrayDetector \<Rightarrow> CorrDetection \<times> ArrayDetector" where
  "find_beacon ext cfg s =
     (let synced_fft = fft_execute ext (synced_signal s);
          signal_energy = 0;
          corr = corr_detect ext synced_fft signal_energy
      in if corr_detected corr then
           let s1 = s\<lparr>prev_soa := soa s\<rparr>;
               s2 = s1\<lparr>soa := real (stride cfg * block_idx s1 + peak_idx corr) + peak_offset corr\<rparr>;
               time_step = (soa s2 - prev_soa s2) / real (sdr_sample_rate cfg)
           in if beacon s2 > 0 \<and> time_step > 1.5 * BEACON_INTERVAL_SEC
              then (corr, s2\<lparr>beacon := beacon s2 + c_round time_step\<rparr>)
              else (corr, s2\<lparr>beacon := beacon s2 + 1\<rparr>)
         else (corr, s))"

definition estimate_clock_error :: "config \<Rightarrow> ArrayDetector \<Rightarrow> real" where
  "estimate_clock_error cfg s =
     (carrier_pos s * real (sdr_sample_rate cfg) / real (block_len cfg) - carrier_ref)
       / real (sdr_freq cfg)"

subsection \<open>Extraction of correlation blocks\<close>

text \<open>
  The phase error of a corrected block, \<^verbatim>\<open>arg(corrected_corr_fft_.data()[0]) / 2 / PI\<close>, and
  its quantisation, \<^verbatim>\<open>int8_t error_fp = error / 0.5 * 127\<close>.
\<close>

definition corr_phase_error :: "complex \<Rightarrow> DeciAngle" where
  "corr_phase_error z = Arg z / 2 / pi"

definition error_fp :: "DeciAngle \<Rightarrow> int" where
  "error_fp error = c_trunc (error / 0.5 * 127)"

text \<open>
  One pass through the body of the loop of \<open>extract_corr_blocks\<close>: \<open>None\<close> is the
  \<open>break\<close>. The guard adds in \<open>size_t\<close>; when that sum has wrapped, the copy that follows
  reads outside the synced signal.
\<close>

definition cycle_start :: "config \<Rightarrow> ArrayDetector \<Rightarrow> real" where
  "cycle_start cfg s =
     soa s
     + real (unat (word_of_int skip_beacon_padding + word_of_int (cycle s) * corr_size cfg))
         * (1 - clock_error s)
     - real (block_idx s * stride cfg)"

definition extract_cycle ::
  "externals \<Rightarrow> config \<Rightarrow> ArrayDetector \<Rightarrow> error + ArrayDetector option" where
  "extract_cycle ext cfg s =
     (let start = cycle_start cfg s;
          start_idx = (word_of_int (c_round start) :: size_t)
      in if start_idx + corr_size cfg > of_nat (block_len cfg) then Inr None
         else if unat start_idx + unat (corr_size cfg) > block_len cfg then Inl OutOfBounds
         else
           let corr_signal = take (unat (corr_size cfg)) (drop (unat start_idx) (synced_signal s));
               corr_fft = fft_execute ext corr_signal
           in case fft_shift corr_fft (corr_size cfg) (start - real (unat start_idx))
                     (- avg_dc_angle s)
                     (float_to_size_t ext
                        (- carrier_pos s * real (unat (corr_size cfg)) / real (block_len cfg))) of
                Inl e \<Rightarrow> Inl e
              | Inr corrected_corr_fft \<Rightarrow>
                  (case corrected_corr_fft of
                     [] \<Rightarrow> Inl OutOfBounds
                   | z # _ \<Rightarrow>
                       let error = corr_phase_error z;
                           s1 = (if \<bar>error\<bar> > 0.2
                                 then s\<lparr>num_phase_errors := num_phase_errors s + 1\<rparr> else s)
                       in case write_cycle_block (writer s1) (error_fp error)
                                 (drop (nat (slice_start cfg)) corrected_corr_fft)
                                 (word_of_int (slice_len cfg)) of
                            Inl e \<Rightarrow> Inl e
                          | Inr w \<Rightarrow> Inr (Some (s1\<lparr>writer := w\<rparr>))))"

lemma cycle_extract_cycle:
  "extract_cycle ext cfg s = Inr (Some s') \<Longrightarrow> cycle s' = cycle s"
  by (auto simp: extract_cycle_def Let_def split: if_splits sum.splits list.splits)

function extract_loop :: "externals \<Rightarrow> config \<Rightarrow> ArrayDetector \<Rightarrow> error + ArrayDetector" where
  "extract_loop ext cfg s =
     (if cycle s < num_cycles cfg then
        (case extract_cycle ext cfg s of
           Inl e \<Rightarrow> Inl e
         | Inr None \<Rightarrow> Inr s
         | Inr (Some s') \<Rightarrow> extract_loop ext cfg (s'\<lparr>cycle := cycle s' + 1\<rparr>))
      else Inr s)"
  by pat_completeness auto
termination
  by (relation "measure (\<lambda>(ext, cfg, s). nat (num_cycles cfg - cycle s))")
     (auto dest: cycle_extract_cycle)

declare extract_loop.simps [simp del]

definition extract_corr_blocks ::
  "externals \<Rightarrow> config \<Rightarrow> ArrayDetector \<Rightarrow> error + ArrayDetector" where
  "extract_corr_blocks ext cfg s =
     (case extract_loop ext cfg s of
        Inl e \<Rightarrow> Inl e
      | Inr s1 \<Rightarrow>
          Inr (if cycle s1 \<ge> num_cycles cfg
               then (s1\<lparr>cycle := - 1\<rparr>)\<lparr>writer := write_cycle_stop (writer s1)\<rparr>
               else s1))"

subsection \<open>One step of the pipeline\<close>

text \<open>The reader's \<open>next()\<close>: no block once it is cancelled or its input has ended.\<close>

definition reader_next :: "ArrayDetector \<Rightarrow> fastcard_data option \<Rightarrow> fastcard_data option" where
  "reader_next s input = (if reader_cancelled s then None else input)"

text \<open>The first statement of \<open>next()\<close>: the switch of the preamplifier.\<close>

definition switch_preamp :: "config \<Rightarrow> ArrayDetector \<Rightarrow> ArrayDetector" where
  "switch_preamp cfg s =
     (if preamp_off_block s > 0 \<and> block_idx s = preamp_off_block s then
        let s1 = (if cycle s \<ge> 0
                  then (s\<lparr>cycle := - 1\<rparr>)\<lparr>writer := write_cycle_stop (writer s)\<rparr> else s);
            s2 = snd (set_bias_tee cfg False s1)
        in s2\<lparr>blocks_skip :=
                nat (c_trunc (PREAMP_OFF_SKIP * real (sdr_sample_rate cfg) / real (stride cfg)))\<rparr>
      else s)"

text \<open>The second statement of \<open>next()\<close>: the scheduled stop.\<close>

definition stop_at_last_block :: "ArrayDetector \<Rightarrow> ArrayDetector" where
  "stop_at_last_block s =
     (if last_block s > 0 \<and> block_idx s = last_block s then s\<lparr>reader_cancelled := True\<rparr> else s)"

text \<open>
  The branch of \<open>next()\<close> that captures noise after the preamplifier is off: a cycle is
  opened when none is open, then the extraction runs.
\<close>

definition open_noise_cycle :: "config \<Rightarrow> fastcard_data \<Rightarrow> ArrayDetector \<Rightarrow> ArrayDetector" where
  "open_noise_cycle cfg blk s =
     (if cycle s = - 1 then
        let s1 = s\<lparr>soa := real (stride cfg * block_idx s), cycle := 0, num_phase_errors := 0\<rparr>;
            header = \<lparr>hdr_soa = soa s1, hdr_timestamp_sec = tv_sec blk,
                      hdr_timestamp_msec = tv_usec blk div 1000,
                      hdr_beacon_amplitude = 0, hdr_beacon_noise = 0,
                      hdr_clock_error = clock_error s1, hdr_carrier_pos = carrier_pos s1,
                      hdr_carrier_amplitude = 0, hdr_preamp_on = False\<rparr>
        in s1\<lparr>writer := write_cycle_start (writer s1) header\<rparr>
      else s)"

definition capture_noise ::
  "externals \<Rightarrow> config \<Rightarrow> fastcard_data \<Rightarrow> ArrayDetector \<Rightarrow> error + ArrayDetector" where
  "capture_noise ext cfg blk s =
     (let s1 = s\<lparr>synced_signal :=
                  freq_shift (samples blk) (block_len cfg) (- carrier_pos s) (sample_phase s)\<rparr>
      in extract_corr_blocks ext cfg (open_noise_cycle cfg blk s1))"

text \<open>What \<open>next()\<close> does with a detected beacon.\<close>

definition accept_beacon ::
  "config \<Rightarrow> fastcard_data \<Rightarrow> CorrDetection \<Rightarrow> ArrayDetector \<Rightarrow> ArrayDetector" where
  "accept_beacon cfg blk corr s =
     (let s1 = s\<lparr>clock_error := estimate_clock_error cfg s\<rparr>;
          s2 = s1\<lparr>cycle := 0, num_phase_errors := 0\<rparr>;
          s3 = (if beacon s2 = 0 then
                  let s4 = s2\<lparr>last_block :=
                              nat (c_trunc ((MAX_CAPTURE_TIME + PREAMP_OFF_TIME)
                                     * real (sdr_sample_rate cfg) / real (stride cfg)
                                   + real (block_idx s2)))\<rparr>
                  in s4\<lparr>preamp_off_block :=
                          nat (c_trunc (MAX_CAPTURE_TIME * real (sdr_sample_rate cfg)
                                 / real (stride cfg)
                               + real (block_idx s4)))\<rparr>
                else s2);
          header = \<lparr>hdr_soa = soa s3, hdr_timestamp_sec = tv_sec blk,
                    hdr_timestamp_msec = tv_usec blk div 1000,
                    hdr_beacon_amplitude = nat (c_trunc (sqrt (peak_power corr))),
                    hdr_beacon_noise = nat (c_trunc (sqrt (noise_power corr))),
                    hdr_clock_error = clock_error s3, hdr_carrier_pos = carrier_pos s3,
                    hdr_carrier_amplitude = nat (c_trunc (dc_ampl s3)),
                    hdr_preamp_on = True\<rparr>
      in s3\<lparr>writer := write_cycle_start (writer s3) header\<rparr>)"

text \<open>
  The part of \<open>next()\<close> after carrier recovery and the running averages: the search for
  a beacon when the carrier dips outside a cycle, then the extraction inside a cycle.
\<close>

definition search_beacon ::
  "externals \<Rightarrow> config \<Rightarrow> fastcard_data \<Rightarrow> ArrayDetector \<Rightarrow> ArrayDetector" where
  "search_beacon ext cfg blk s =
     (if cycle s = - 1 \<and> dc_ampl s < avg_dc_ampl s * BEACON_CARRIER_TRIGGER_FACTOR then
        let (corr, s1) = find_beacon ext cfg s
        in if corr_detected corr then accept_beacon cfg blk corr s1 else s1
      else s)"

definition search_and_extract ::
  "externals \<Rightarrow> config \<Rightarrow> fastcard_data \<Rightarrow> ArrayDetector \<Rightarrow> error + ArrayDetector" where
  "search_and_extract ext cfg blk s =
     (let s1 = search_beacon ext cfg blk s
      in if cycle s1 \<ge> 0 then extract_corr_blocks ext cfg s1 else Inr s1)"

definition update_averages :: "config \<Rightarrow> ArrayDetector \<Rightarrow> ArrayDetector" where
  "update_averages cfg s =
     (let s1 = s\<lparr>sample_phase := sample_phase s
                   - carrier_pos s * (1 - real (history_len cfg) / real (block_len cfg))\<rparr>;
          s2 = s1\<lparr>sample_phase := normalize_deciangle (sample_phase s1)\<rparr>;
          s3 = s2\<lparr>avg_dc_angle := dc_angle s2 * AVG_ANGLE_WEIGHT
                                   + avg_dc_angle s2 * (1 - AVG_ANGLE_WEIGHT)\<rparr>
      in s3\<lparr>avg_dc_ampl := dc_ampl s3 * AVG_DCAMPL_WEIGHT
                             + avg_dc_ampl s3 * (1 - AVG_DCAMPL_WEIGHT)\<rparr>)"

text \<open>
  What \<open>next()\<close> does with a block that the reader has delivered, after counting it. Each
  of its branches ends in \<open>return true\<close>.
\<close>

definition process_block ::
  "externals \<Rightarrow> config \<Rightarrow> fastcard_data \<Rightarrow> ArrayDetector \<Rightarrow> error + ArrayDetector" where
  "process_block ext cfg blk s =
     (if blocks_skip s \<noteq> 0 then Inr (s\<lparr>blocks_skip := blocks_skip s - 1\<rparr>)
      else if preamp_off_block s > 0 \<and> block_idx s > preamp_off_block s
      then capture_noise ext cfg blk s
      else
        let (found, s1) = recover_carrier ext cfg blk s;
            s2 = update_averages cfg s1
        in if \<not> detected_carrier s2 then Inr s2
           else search_and_extract ext cfg blk s2)"

text \<open>
  \<open>next()\<close>. The input is the block that the reader would deliver, or \<open>None\<close> when its
  input has ended; a cancel from the signal handler makes the reader return false in the
  same way. The result is the return value and the new state.
\<close>

definition next_block ::
  "externals \<Rightarrow> config \<Rightarrow> fastcard_data option \<Rightarrow> ArrayDetector \<Rightarrow> error + bool \<times> ArrayDetector" where
  "next_block ext cfg input s0 =
     (let s1 = stop_at_last_block (switch_preamp cfg s0)
      in case reader_next s1 input of
           None \<Rightarrow>
             Inr (False, if cycle s1 \<ge> 0 then s1\<lparr>writer := write_cycle_stop (writer s1)\<rparr> else s1)
         | Some blk \<Rightarrow>
             map_sum id (Pair True) (process_block ext cfg blk (s1\<lparr>block_idx := block_idx s1 + 1\<rparr>)))"

subsection \<open>The main loop\<close>

text \<open>
  \<open>run_blocks\<close> calls \<open>next()\<close> once for each block of the list, until one call returns
  false; its result tells whether the pipeline is still running. \<open>main_loop\<close> is
  \<open>while (detector->next()) {}\<close> on a reader that delivers the blocks of the list and
  then reports the end of its input. An exception thrown by the reader, which \<open>main\<close>
  catches to exit with an error code, is not modelled.
\<close>

fun run_blocks ::
  "externals \<Rightarrow> config \<Rightarrow> ArrayDetector \<Rightarrow> fastcard_data list \<Rightarrow> error + bool \<times> ArrayDetector" where
  "run_blocks ext cfg s [] = Inr (True, s)"
| "run_blocks ext cfg s (blk # blks) =
     (case next_block ext cfg (Some blk) s of
        Inl e \<Rightarrow> Inl e
      | Inr (running, s') \<Rightarrow> if running then run_blocks ext cfg s' blks else Inr (False, s'))"

definition main_loop ::
  "externals \<Rightarrow> config \<Rightarrow> ArrayDetector \<Rightarrow> fastcard_data list \<Rightarrow> error + ArrayDetector" where
  "main_loop ext cfg s blks =
     (case run_blocks ext cfg s blks of
        Inl e \<Rightarrow> Inl e
      | Inr (running, s') \<Rightarrow>
          if running then map_sum id snd (next_block ext cfg None s') else Inr s')"

section \<open>Observations on a run\<close>

text \<open>The numbers of \<open>write_cycle_start\<close> and \<open>write_cycle_stop\<close> calls among the recorded calls.\<close>

fun is_cycle_start :: "writer_call \<Rightarrow> bool" where
  "is_cycle_start (WriteCycleStart header) = True"
| "is_cycle_start c = False"

definition num_starts :: "CorxFileWriter \<Rightarrow> nat" where
  "num_starts w = length (filter is_cycle_start (calls w))"

definition num_stops :: "CorxFileWriter \<Rightarrow> nat" where
  "num_stops w = length (filter (\<lambda>c. c = WriteCycleStop) (calls w))"

text \<open>A recorded call is in range when it is not a cycle block, or its phase error is within \<open>\<plusminus>127\<close>.\<close>

fun phase_error_in_range :: "writer_call \<Rightarrow> bool" where
  "phase_error_in_range (WriteCycleBlock phase_error data len) =
     (- 127 \<le> phase_error \<and> phase_error \<le> 127)"
| "phase_error_in_range c = True"

text \<open>
  The writer's \<open>slice_size_\<close> agrees with the length that the extractor passes to
  \<open>write_cycle_block\<close>, or the writer has no sink.
\<close>

definition slice_ok :: "config \<Rightarrow> CorxFileWriter \<Rightarrow> bool" where
  "slice_ok cfg w = (is_void w \<or> slice_size_member w = uint (word_of_int (slice_len cfg) :: 16 word))"

text \<open>
  A property of the writer that the calls of \<open>next()\<close> preserve: \<open>write_cycle_stop\<close>,
  \<open>write_cycle_start\<close>, and \<open>write_cycle_block\<close> with a quantised phase error and the
  slice length.
\<close>

definition writer_inv :: "config \<Rightarrow> (CorxFileWriter \<Rightarrow> bool) \<Rightarrow> bool" where
  "writer_inv cfg P =
     ((\<forall>w. P w \<longrightarrow> P (write_cycle_stop w)) \<and>
      (\<forall>w h. P w \<longrightarrow> P (write_cycle_start w h)) \<and>
      (\<forall>w w' z d. P w \<longrightarrow>
         write_cycle_block w (error_fp (corr_phase_error z)) d (word_of_int (slice_len cfg)) = Inr w'
         \<longrightarrow> P w'))"

text \<open>
  The number of \<open>write_cycle_start\<close> calls that no \<open>write_cycle_stop\<close> has matched, and
  its relation to \<open>cycle_\<close>.
\<close>

definition pending :: "CorxFileWriter \<Rightarrow> int" where
  "pending w = int (num_starts w) - int (num_stops w)"

definition cycle_inv :: "ArrayDetector \<Rightarrow> bool" where
  "cycle_inv s = (- 1 \<le> cycle s \<and> pending (writer s) = (if 0 \<le> cycle s then 1 else 0))"

text \<open>The file of a writer with a sink begins with the given items.\<close>

definition file_begins :: "file_item list \<Rightarrow> CorxFileWriter \<Rightarrow> bool" where
  "file_begins p w = (case out w of None \<Rightarrow> False | Some f \<Rightarrow> prefix p f)"

text \<open>The state of the pipeline apart from what the writer holds of its sink.\<close>

definition without_sink :: "CorxFileWriter \<Rightarrow> CorxFileWriter" where
  "without_sink w = w\<lparr>out := None, slice_size_member := 0\<rparr>"

definition non_output :: "ArrayDetector \<Rightarrow> ArrayDetector" where
  "non_output s = s\<lparr>writer := without_sink (writer s)\<rparr>"

text \<open>The pipeline as \<open>main\<close> runs it: construction, \<open>start()\<close>, then the loop.\<close>

definition started :: "config \<Rightarrow> bool \<Rightarrow> ArrayDetector \<Rightarrow> ArrayDetector" where
  "started cfg has_sink u = start cfg (new_ArrayDetector cfg has_sink u)"

section \<open>A small run\<close>

text \<open>
  Concrete collaborators, a configuration, an initial memory and two blocks, on which the
  definitions above can be evaluated: an FFT that copies its input, a correlation detector
  that reports a beacon at the start of the block, a block with a unit sample and a silent
  block. With a tuner frequency of 277800 the estimated clock error of a carrier at bin 0
  is 1, so that every cycle starts at the beacon and fits into the block of four samples.
\<close>

definition example_ext :: externals where
  "example_ext =
     \<lparr>fft_execute = (\<lambda>x. x),
      corr_detect = (\<lambda>f e. \<lparr>corr_detected = True, peak_idx = 0, peak_offset = 0,
                             peak_power = 4, noise_power = 1\<rparr>),
      interpolate_parabolic = (\<lambda>p m. 0),
      undefined_size_t = (\<lambda>x. 0)\<rparr>"

definition example_cfg :: config where
  "example_cfg =
     \<lparr>block_len = 4, history_len = 0, skip = 0, sdr_sample_rate = 12002,
      sdr_freq = 277800, input_file = ''rtlsdr'', corr_size = 2\<rparr>"

definition blank :: ArrayDetector where
  "blank =
     \<lparr>block_idx = 0, blocks_skip = 0, last_block = 0, preamp_off_block = 0,
      sample_phase = 0, carrier_pos = 0, detected_carrier = False, dc_angle = 0,
      prev_dc_angle = 0, dc_ampl = 0, clock_error = 0, avg_dc_angle = 0, avg_dc_ampl = 0,
      beacon = 0, soa = 0, prev_soa = 0, cycle = 0, num_phase_errors = 0, synced_signal = [],
      writer = \<lparr>out = None, slice_size_member = 0, calls = []\<rparr>,
      reader_cancelled = False, bias_tee = False\<rparr>"

definition tone_block :: fastcard_data where
  "tone_block =
     \<lparr>samples = [1, 0, 0, 0], tv_sec = 0, tv_usec = 0, detected = True, argmax = 0,
      fft_power = []\<rparr>"

definition quiet_block :: fastcard_data where
  "quiet_block =
     \<lparr>samples = [0, 0, 0, 0], tv_sec = 1, tv_usec = 5000, detected = False, argmax = 0,
      fft_power = []\<rparr>"

text \<open>
  A drifting carrier, on blocks of one sample and correlation blocks of one sample. The
  first block locks the carrier at \<open>-0.5\<close>; the DC angle of each of the next ten blocks
  is a quarter turn behind the one before, which moves the carrier position by \<open>-0.05\<close>
  each time; the last block is silent, so that a beacon is searched and found. Each
  sample is the wanted DC value turned back by the phase of the first sample of its
  block. The sample rate and the tuner frequency make the estimated clock error 1 at
  the carrier position \<open>-1.1\<close> that the last block reaches.
\<close>

definition drift_ext :: externals where
  "drift_ext = example_ext\<lparr>interpolate_parabolic := (\<lambda>p m. 1/2)\<rparr>"

definition drift_cfg :: config where
  "drift_cfg =
     \<lparr>block_len = 1, history_len = 0, skip = 0, sdr_sample_rate = 12010,
      sdr_freq = 264589, input_file = ''rtlsdr'', corr_size = 1\<rparr>"

definition drift_block :: "complex \<Rightarrow> fastcard_data" where
  "drift_block x =
     \<lparr>samples = [x], tv_sec = 0, tv_usec = 0, detected = False, argmax = 0, fft_power = []\<rparr>"

definition drift_blocks :: "fastcard_data list" where
  "drift_blocks =
     [(drift_block 1)\<lparr>detected := True\<rparr>,
      drift_block (cis (2 * pi * (1/2)) * (- \<i>)),
      drift_block (cis (2 * pi * (- 1/20)) * (- 1)),
      drift_block (cis (2 * pi * (7/20)) * \<i>),
      drift_block (cis (2 * pi * (- 3/10)) * 1),
      drift_block (- \<i>),
      drift_block (cis (2 * pi * (1/4)) * (- 1)),
      drift_block (cis (2 * pi * (9/20)) * \<i>),
      drift_block (cis (2 * pi * (- 2/5)) * 1),
      drift_block (cis (2 * pi * (- 3/10)) * (- \<i>)),
      drift_block (cis (2 * pi * (- 1/4)) * (- 1)),
      drift_block 0]"

section \<open>Properties\<close>

subsection \<open>Evaluation\<close>

lemma Arg_one: "Arg 1 = 0"
  by (rule cis_Arg_unique) simp_all

lemmas eval_defs = started_def start_def new_ArrayDetector_def set_bias_tee_def
  write_file_header_def called_def is_void_def fwrite_def file_header_bytes_def
  slice_start_def slice_len_def next_block_def switch_preamp_def stop_at_last_block_def
  reader_next_def process_block_def recover_carrier_def track_carrier_def detect_carrier_def
  shift_and_measure_def signed_carrier_pos_def freq_shift_def expj_multiply_def
  calculate_dc_def normalize_deciangle_def c_round_def c_trunc_def update_averages_def
  search_and_extract_def search_beacon_def find_beacon_def accept_beacon_def
  estimate_clock_error_def stride_def capture_noise_def open_noise_cycle_def
  extract_corr_blocks_def extract_loop.simps extract_cycle_def cycle_start_def num_cycles_def
  fft_shift_def pos_len_def adjust_phase_def float_to_size_t_def corr_phase_error_def
  error_fp_def write_cycle_block_def write_cycle_block_internal_def write_cycle_start_def
  write_cycle_stop_def beacon_header_bytes_def le_bytes_def sample_items_def main_loop_def
  example_ext_def example_cfg_def blank_def tone_block_def quiet_block_def
  Let_def upt_rec Arg_zero Arg_one

subsection \<open>Rounding\<close>

lemma c_round_bounds: "\<bar>x - of_int (c_round x)\<bar> \<le> 1/2"
proof (cases "0 \<le> x")
  case True
  have "of_int \<lfloor>x + 1/2\<rfloor> \<le> x + 1/2" "x + 1/2 < of_int \<lfloor>x + 1/2\<rfloor> + 1"
    by linarith+
  moreover have "c_round x = \<lfloor>x + 1/2\<rfloor>" using True by (simp add: c_round_def)
  ultimately show ?thesis by linarith
next
  case False
  have "x - 1/2 \<le> of_int \<lceil>x - 1/2\<rceil>" "of_int \<lceil>x - 1/2\<rceil> < x - 1/2 + 1"
    by linarith+
  moreover have "c_round x = \<lceil>x - 1/2\<rceil>" using False by (simp add: c_round_def)
  ultimately show ?thesis by linarith
qed

lemma c_round_nearest: "\<bar>x - of_int (c_round x)\<bar> \<le> \<bar>x - of_int k\<bar>"
proof (cases "k = c_round x")
  case True then show ?thesis by simp
next
  case False
  then have "1 \<le> \<bar>c_round x - k\<bar>" by linarith
  then have "1 \<le> \<bar>real_of_int (c_round x) - of_int k\<bar>"
    by (metis of_int_1_le_iff of_int_abs of_int_diff)
  with c_round_bounds [of x] show ?thesis by linarith
qed

subsection \<open>Writer operations\<close>

lemma calls_fwrite [simp]: "calls (fwrite w items) = calls w"
  and slice_fwrite [simp]: "slice_size_member (fwrite w items) = slice_size_member w"
  and void_fwrite [simp]: "is_void (fwrite w items) = is_void w"
  by (simp_all add: fwrite_def is_void_def)

lemma out_called [simp]: "out (called w c) = out w"
  and slice_called [simp]: "slice_size_member (called w c) = slice_size_member w"
  and void_called [simp]: "is_void (called w c) = is_void w"
  and calls_called [simp]: "calls (called w c) = calls w @ [c]"
  by (simp_all add: called_def is_void_def)

lemma void_slice_update [simp]: "is_void (w\<lparr>slice_size_member := x\<rparr>) = is_void w"
  by (simp add: is_void_def)

lemma write_cycle_stop_simps [simp]:
  "calls (write_cycle_stop w) = calls w @ [WriteCycleStop]"
  "slice_size_member (write_cycle_stop w) = slice_size_member w"
  "is_void (write_cycle_stop w) = is_void w"
  by (simp_all add: write_cycle_stop_def write_cycle_block_internal_def Let_def)

lemma write_cycle_start_simps [simp]:
  "calls (write_cycle_start w h) = calls w @ [WriteCycleStart h]"
  "slice_size_member (write_cycle_start w h) = slice_size_member w"
  "is_void (write_cycle_start w h) = is_void w"
  by (simp_all add: write_cycle_start_def Let_def)

lemma write_file_header_simps [simp]:
  "calls (write_file_header w h) = calls w @ [WriteFileHeader h]"
  "is_void (write_file_header w h) = is_void w"
  by (simp_all add: write_file_header_def Let_def)

lemma slice_write_file_header:
  "\<not> is_void w \<Longrightarrow> slice_size_member (write_file_header w h) = uint (slice_size h)"
  by (simp add: write_file_header_def Let_def)

lemma write_cycle_block_Inr:
  assumes "write_cycle_block w e d l = Inr w'"
  shows "calls w' = calls w @ [WriteCycleBlock e d l]"
    and "slice_size_member w' = slice_size_member w"
    and "is_void w' = is_void w"
  using assms
  by (auto simp: write_cycle_block_def write_cycle_block_internal_def Let_def split: if_splits)

lemma write_cycle_block_void: "is_void w \<Longrightarrow> write_cycle_block w e d l = Inr (called w (WriteCycleBlock e d l))"
  by (simp add: write_cycle_block_def Let_def)

lemma write_cycle_block_ok:
  "slice_size_member w = uint l \<Longrightarrow> e \<noteq> - 128 \<Longrightarrow> \<exists>w'. write_cycle_block w e d l = Inr w'"
  by (simp add: write_cycle_block_def Let_def)

subsection \<open>What the steps leave alone\<close>

lemma set_bias_tee_frame [simp]:
  "writer (snd (set_bias_tee cfg on s)) = writer s"
  "cycle (snd (set_bias_tee cfg on s)) = cycle s"
  by (simp_all add: set_bias_tee_def)

lemma switch_preamp_writer:
  "writer (switch_preamp cfg s) =
     (if preamp_off_block s > 0 \<and> block_idx s = preamp_off_block s \<and> cycle s \<ge> 0
      then write_cycle_stop (writer s) else writer s)"
  by (simp add: switch_preamp_def Let_def)

lemma switch_preamp_cycle:
  "cycle (switch_preamp cfg s) =
     (if preamp_off_block s > 0 \<and> block_idx s = preamp_off_block s \<and> cycle s \<ge> 0
      then - 1 else cycle s)"
  by (simp add: switch_preamp_def Let_def)

lemma stop_at_last_block_frame [simp]:
  "writer (stop_at_last_block s) = writer s"
  "cycle (stop_at_last_block s) = cycle s"
  by (simp_all add: stop_at_last_block_def)

lemma shift_and_measure_frame [simp]:
  "writer (shift_and_measure cfg blk s) = writer s"
  "cycle (shift_and_measure cfg blk s) = cycle s"
  by (simp_all add: shift_and_measure_def Let_def)

lemma track_carrier_frame [simp]:
  "writer (track_carrier cfg blk s) = writer s"
  "cycle (track_carrier cfg blk s) = cycle s"
  by (simp_all add: track_carrier_def Let_def)

lemma detect_carrier_frame [simp]:
  "writer (detect_carrier ext cfg blk s) = writer s"
  "cycle (detect_carrier ext cfg blk s) = cycle s"
  by (simp_all add: detect_carrier_def Let_def)

lemma recover_carrier_frame [simp]:
  "writer (snd (recover_carrier ext cfg blk s)) = writer s"
  "cycle (snd (recover_carrier ext cfg blk s)) = cycle s"
  by (simp_all add: recover_carrier_def Let_def)

lemma update_averages_frame [simp]:
  "writer (update_averages cfg s) = writer s"
  "cycle (update_averages cfg s) = cycle s"
  by (simp_all add: update_averages_def Let_def)

lemma find_beacon_frame [simp]:
  "writer (snd (find_beacon ext cfg s)) = writer s"
  "cycle (snd (find_beacon ext cfg s)) = cycle s"
  by (simp_all add: find_beacon_def Let_def)

lemma accept_beacon_cycle [simp]: "cycle (accept_beacon cfg blk corr s) = 0"
  by (simp add: accept_beacon_def Let_def)

lemma accept_beacon_writer:
  "\<exists>header. writer (accept_beacon cfg blk corr s) = write_cycle_start (writer s) header"
  by (auto simp: accept_beacon_def Let_def)

lemma open_noise_cycle_cycle [simp]: "- 1 \<le> cycle s \<Longrightarrow> 0 \<le> cycle (open_noise_cycle cfg blk s)"
  by (auto simp: open_noise_cycle_def Let_def)

lemma open_noise_cycle_writer:
  "writer (open_noise_cycle cfg blk s) = writer s \<and> cycle (open_noise_cycle cfg blk s) = cycle s \<and> cycle s \<noteq> - 1 \<or>
   (\<exists>h. writer (open_noise_cycle cfg blk s) = write_cycle_start (writer s) h) \<and> cycle s = - 1
     \<and> cycle (open_noise_cycle cfg blk s) = 0"
  by (auto simp: open_noise_cycle_def Let_def)

lemma search_beacon_writer:
  "writer (search_beacon ext cfg blk s) = writer s \<and> cycle (search_beacon ext cfg blk s) = cycle s \<or>
   (\<exists>h. writer (search_beacon ext cfg blk s) = write_cycle_start (writer s) h) \<and> cycle s = - 1
     \<and> cycle (search_beacon ext cfg blk s) = 0"
proof -
  obtain corr t where f: "find_beacon ext cfg s = (corr, t)" by (cases "find_beacon ext cfg s")
  have t: "writer t = writer s" "cycle t = cycle s"
    using find_beacon_frame [of ext cfg s] by (simp_all add: f)
  show ?thesis
    using accept_beacon_writer [of cfg blk corr t] t
    by (auto simp: search_beacon_def f)
qed

subsection \<open>Quantised phase error\<close>

lemma c_trunc_range: "- of_int n \<le> x \<Longrightarrow> x \<le> of_int n \<Longrightarrow> - n \<le> c_trunc x \<and> c_trunc x \<le> n"
  unfolding c_trunc_def
  by (auto simp: le_floor_iff ceiling_le_iff) (linarith+)?

lemma phase_error_turns: "\<bar>corr_phase_error z\<bar> \<le> 1/2"
proof -
  have "\<bar>Arg z\<bar> \<le> pi" using Arg_bounded [of z] by linarith
  then have "\<bar>Arg z\<bar> / (2 * pi) \<le> pi / (2 * pi)"
    by (intro divide_right_mono) simp_all
  then show ?thesis by (simp add: corr_phase_error_def abs_mult)
qed

lemma error_fp_range:
  assumes "\<bar>e\<bar> \<le> 1/2"
  shows "- 127 \<le> error_fp e \<and> error_fp e \<le> 127"
proof -
  have "e / 0.5 * 127 = 254 * e" by simp
  with assms have "- of_int 127 \<le> e / 0.5 * 127" "e / 0.5 * 127 \<le> of_int 127"
    by (simp_all add: abs_le_iff)
  then show ?thesis unfolding error_fp_def by (rule c_trunc_range)
qed

lemmas error_fp_phase_error = error_fp_range [OF phase_error_turns]

subsection \<open>One cycle\<close>

lemma extract_cycle_SomeE:
  assumes "extract_cycle ext cfg s = Inr (Some s')"
  obtains z d where
    "write_cycle_block (writer s) (error_fp (corr_phase_error z)) d (word_of_int (slice_len cfg)) = Inr (writer s')"
  using assms
  by (auto simp: extract_cycle_def Let_def split: if_splits sum.splits list.splits)

lemma fft_shift_Inl: "fft_shift src len f p off = Inl e \<Longrightarrow> e = OutOfBounds"
  by (auto simp: fft_shift_def Let_def split: if_splits prod.splits)

lemma write_cycle_block_no_assert:
  assumes "\<not> is_void w \<longrightarrow> slice_size_member w = uint l" and "- 127 \<le> e"
  shows "\<exists>w'. write_cycle_block w e d l = Inr w'"
  using assms by (auto simp: write_cycle_block_def Let_def)


lemma extract_cycle_no_assert:
  assumes "slice_ok cfg (writer s)"
  shows "extract_cycle ext cfg s \<noteq> Inl AssertionFailed"
proof
  assume a: "extract_cycle ext cfg s = Inl AssertionFailed"
  have w: "\<exists>w'. write_cycle_block (writer s) (error_fp (corr_phase_error z)) d
             (word_of_int (slice_len cfg)) = Inr w'" for z d
    using assms error_fp_phase_error [of z]
    by (intro write_cycle_block_no_assert) (auto simp: slice_ok_def)
  from a obtain z d where "write_cycle_block (writer s) (error_fp (corr_phase_error z)) d
             (word_of_int (slice_len cfg)) = Inl AssertionFailed"
    by (auto simp: extract_cycle_def Let_def split: if_splits sum.splits list.splits
          dest: fft_shift_Inl)
  with w [of z d] show False by auto
qed

lemma writer_invD:
  assumes "writer_inv cfg P" "P w"
  shows "P (write_cycle_stop w)" "P (write_cycle_start w h)"
    "write_cycle_block w (error_fp (corr_phase_error z)) d (word_of_int (slice_len cfg)) = Inr w' \<Longrightarrow> P w'"
  using assms unfolding writer_inv_def by blast+

lemma extract_cycle_inv:
  assumes "writer_inv cfg P" "P (writer s)" "extract_cycle ext cfg s = Inr (Some s')"
  shows "P (writer s')"
  using assms(3) writer_invD(3) [OF assms(1,2)] by (elim extract_cycle_SomeE) blast

lemma extract_loop_inv:
  "writer_inv cfg P \<Longrightarrow> P (writer s) \<Longrightarrow> extract_loop ext cfg s = Inr s' \<Longrightarrow> P (writer s')"
proof (induction ext cfg s rule: extract_loop.induct)
  case (1 ext cfg s)
  show ?case
  proof (cases "cycle s < num_cycles cfg")
    case False
    with "1.prems" show ?thesis by (simp add: extract_loop.simps)
  next
    case True
    show ?thesis
    proof (cases "extract_cycle ext cfg s")
      case (Inl e)
      with True "1.prems" show ?thesis by (simp add: extract_loop.simps)
    next
      case (Inr r)
      show ?thesis
      proof (cases r)
        case None
        with True Inr "1.prems" show ?thesis by (simp add: extract_loop.simps)
      next
        case (Some t)
        have "P (writer t)"
          using Inr Some by (intro extract_cycle_inv [OF "1.prems"(1,2), where ext = ext]) simp
        then have "P (writer (t\<lparr>cycle := cycle t + 1\<rparr>))" by simp
        moreover have "extract_loop ext cfg (t\<lparr>cycle := cycle t + 1\<rparr>) = Inr s'"
          using True Inr Some "1.prems"(3) by (simp add: extract_loop.simps [of ext cfg s])
        ultimately show ?thesis using "1.IH" [OF True Inr Some "1.prems"(1)] by blast
      qed
    qed
  qed
qed

lemma extract_corr_blocks_inv:
  assumes "writer_inv cfg P" "P (writer s)" "extract_corr_blocks ext cfg s = Inr s'"
  shows "P (writer s')"
  using assms(3) extract_loop_inv [OF assms(1,2)] writer_invD(1) [OF assms(1)]
  by (auto simp: extract_corr_blocks_def split: sum.splits if_splits)

lemma capture_noise_inv:
  assumes "writer_inv cfg P" "P (writer s)" "capture_noise ext cfg blk s = Inr s'"
  shows "P (writer s')"
proof -
  define s1 where "s1 = s\<lparr>synced_signal :=
     freq_shift (samples blk) (block_len cfg) (- carrier_pos s) (sample_phase s)\<rparr>"
  have "P (writer s1)" using assms(2) by (simp add: s1_def)
  then have "P (writer (open_noise_cycle cfg blk s1))"
    using open_noise_cycle_writer [of cfg blk s1] writer_invD(2) [OF assms(1)] by auto
  moreover have "extract_corr_blocks ext cfg (open_noise_cycle cfg blk s1) = Inr s'"
    using assms(3) by (simp add: capture_noise_def s1_def)
  ultimately show ?thesis by (rule extract_corr_blocks_inv [OF assms(1)])
qed

lemma search_and_extract_inv:
  assumes "writer_inv cfg P" "P (writer s)" "search_and_extract ext cfg blk s = Inr s'"
  shows "P (writer s')"
proof -
  have p: "P (writer (search_beacon ext cfg blk s))"
    using search_beacon_writer [of ext cfg blk s] writer_invD(2) [OF assms(1,2)] assms(2) by auto
  show ?thesis
  proof (cases "0 \<le> cycle (search_beacon ext cfg blk s)")
    case True
    then have "extract_corr_blocks ext cfg (search_beacon ext cfg blk s) = Inr s'"
      using assms(3) by (simp add: search_and_extract_def)
    with p show ?thesis by (rule extract_corr_blocks_inv [OF assms(1)])
  next
    case False
    then have "s' = search_beacon ext cfg blk s"
      using assms(3) by (simp add: search_and_extract_def)
    with p show ?thesis by simp
  qed
qed

lemma switch_preamp_inv:
  assumes "writer_inv cfg P" "P (writer s)"
  shows "P (writer (stop_at_last_block (switch_preamp cfg s)))"
  using assms writer_invD(1) [OF assms] by (simp add: switch_preamp_writer)

lemma process_block_inv:
  assumes "writer_inv cfg P" "P (writer s)" "process_block ext cfg blk s = Inr s'"
  shows "P (writer s')"
proof -
  define s2 where "s2 = update_averages cfg (snd (recover_carrier ext cfg blk s))"
  have p2: "P (writer s2)" using assms(2) by (simp add: s2_def)
  consider (skip) "blocks_skip s \<noteq> 0"
    | (noise) "blocks_skip s = 0" "preamp_off_block s > 0 \<and> block_idx s > preamp_off_block s"
    | (lost) "blocks_skip s = 0" "\<not> (preamp_off_block s > 0 \<and> block_idx s > preamp_off_block s)"
        "\<not> detected_carrier s2"
    | (locked) "blocks_skip s = 0" "\<not> (preamp_off_block s > 0 \<and> block_idx s > preamp_off_block s)"
        "detected_carrier s2"
    by blast
  then show ?thesis
  proof cases
    case skip
    with assms(3) have "s' = s\<lparr>blocks_skip := blocks_skip s - 1\<rparr>"
      by (simp add: process_block_def)
    with assms(2) show ?thesis by simp
  next
    case noise
    with assms(3) have "capture_noise ext cfg blk s = Inr s'"
      by (simp add: process_block_def)
    with assms(1,2) show ?thesis by (rule capture_noise_inv)
  next
    case lost
    with assms(3) have "s' = s2"
      by (simp add: process_block_def case_prod_beta s2_def)
    with p2 show ?thesis by simp
  next
    case locked
    with assms(3) have "search_and_extract ext cfg blk s2 = Inr s'"
      by (simp add: process_block_def case_prod_beta s2_def)
    with assms(1) p2 show ?thesis by (rule search_and_extract_inv)
  qed
qed

lemma next_block_inv:
  assumes "writer_inv cfg P" "P (writer s)" "next_block ext cfg input s = Inr (r, s')"
  shows "P (writer s')"
proof -
  define s1 where "s1 = stop_at_last_block (switch_preamp cfg s)"
  have p1: "P (writer s1)" unfolding s1_def using assms(1,2) by (rule switch_preamp_inv)
  show ?thesis
  proof (cases "reader_next s1 input")
    case None
    then have "s' = (if cycle s1 \<ge> 0 then s1\<lparr>writer := write_cycle_stop (writer s1)\<rparr> else s1)"
      using assms(3) by (auto simp: next_block_def s1_def Let_def)
    then show ?thesis using p1 writer_invD(1) [OF assms(1) p1] by simp
  next
    case (Some blk)
    define s2 where "s2 = s1\<lparr>block_idx := block_idx s1 + 1\<rparr>"
    have p2: "P (writer s2)" using p1 by (simp add: s2_def)
    from assms(3) Some have "map_sum id (Pair True) (process_block ext cfg blk s2) = Inr (r, s')"
      by (simp add: next_block_def s1_def s2_def Let_def)
    then have "process_block ext cfg blk s2 = Inr s'"
      by (cases "process_block ext cfg blk s2") simp_all
    with assms(1) p2 show ?thesis by (rule process_block_inv)
  qed
qed

lemma run_blocks_inv:
  "writer_inv cfg P \<Longrightarrow> P (writer s) \<Longrightarrow> run_blocks ext cfg s blks = Inr (r, s')
   \<Longrightarrow> P (writer s')"
proof (induction blks arbitrary: s)
  case Nil
  then show ?case by simp
next
  case (Cons blk blks)
  from Cons.prems(3) obtain running t where
    n: "next_block ext cfg (Some blk) s = Inr (running, t)"
    by (auto split: sum.splits)
  have pt: "P (writer t)" using Cons.prems(1,2) n by (rule next_block_inv)
  show ?case
  proof (cases running)
    case True
    with n Cons.prems(3) have "run_blocks ext cfg t blks = Inr (r, s')" by simp
    with Cons.IH [OF Cons.prems(1) pt] show ?thesis by simp
  next
    case False
    with n Cons.prems(3) have "s' = t" by simp
    with pt show ?thesis by simp
  qed
qed

lemma main_loop_cases:
  assumes "main_loop ext cfg s blks = Inr s'"
  obtains (stopped) "run_blocks ext cfg s blks = Inr (False, s')"
  | (ended) t q where "run_blocks ext cfg s blks = Inr (True, t)"
      "next_block ext cfg None t = Inr (q, s')"
proof (cases "run_blocks ext cfg s blks")
  case (Inl e)
  with assms show ?thesis by (simp add: main_loop_def)
next
  case (Inr p)
  obtain running t where p: "p = (running, t)" by (cases p)
  show ?thesis
  proof (cases running)
    case False
    with Inr p assms have "s' = t" by (simp add: main_loop_def)
    with Inr p False stopped show ?thesis by simp
  next
    case True
    show ?thesis
    proof (cases "next_block ext cfg None t")
      case (Inl e)
      with Inr p True assms show ?thesis by (simp add: main_loop_def)
    next
      case n: (Inr u)
      obtain q v where u: "u = (q, v)" by (cases u)
      with n Inr p True assms have "v = s'" by (simp add: main_loop_def)
      with n u Inr p True ended show ?thesis by simp
    qed
  qed
qed

lemma main_loop_inv:
  assumes "writer_inv cfg P" "P (writer s)" "main_loop ext cfg s blks = Inr s'"
  shows "P (writer s')"
  using assms(3)
proof (cases rule: main_loop_cases)
  case stopped
  with assms(1,2) show ?thesis by (rule run_blocks_inv)
next
  case (ended t q)
  have "P (writer t)" using assms(1,2) ended(1) by (rule run_blocks_inv)
  with assms(1) show ?thesis using ended(2) by (rule next_block_inv)
qed

subsection \<open>Instances\<close>

lemma writer_inv_slice_ok: "writer_inv cfg (slice_ok cfg)"
  unfolding writer_inv_def slice_ok_def
  by (auto dest: write_cycle_block_Inr)

lemma writer_inv_void: "writer_inv cfg is_void"
  unfolding writer_inv_def by (auto dest: write_cycle_block_Inr)

lemma writer_inv_phase_range: "writer_inv cfg (\<lambda>w. list_all phase_error_in_range (calls w))"
  unfolding writer_inv_def
  using error_fp_phase_error by (auto dest: write_cycle_block_Inr(1))

subsection \<open>Assertions\<close>

lemma extract_loop_no_assert:
  "slice_ok cfg (writer s) \<Longrightarrow> extract_loop ext cfg s \<noteq> Inl AssertionFailed"
proof (induction ext cfg s rule: extract_loop.induct)
  case (1 ext cfg s)
  show ?case
  proof (cases "cycle s < num_cycles cfg")
    case False
    then show ?thesis by (simp add: extract_loop.simps)
  next
    case True
    show ?thesis
    proof (cases "extract_cycle ext cfg s")
      case (Inl e)
      with extract_cycle_no_assert [OF "1.prems", of ext] have "e \<noteq> AssertionFailed" by auto
      with True Inl show ?thesis by (simp add: extract_loop.simps)
    next
      case (Inr r)
      show ?thesis
      proof (cases r)
        case None
        with True Inr show ?thesis by (simp add: extract_loop.simps)
      next
        case (Some t)
        have "slice_ok cfg (writer t)"
          using Inr Some
          by (intro extract_cycle_inv [OF writer_inv_slice_ok "1.prems", where ext = ext]) simp
        then have "slice_ok cfg (writer (t\<lparr>cycle := cycle t + 1\<rparr>))" by simp
        from "1.IH" [OF True Inr Some this] True Inr Some show ?thesis
          by (simp add: extract_loop.simps [of ext cfg s])
      qed
    qed
  qed
qed

lemma extract_corr_blocks_no_assert:
  "slice_ok cfg (writer s) \<Longrightarrow> extract_corr_blocks ext cfg s \<noteq> Inl AssertionFailed"
  using extract_loop_no_assert [of cfg s ext]
  by (auto simp: extract_corr_blocks_def split: sum.splits)

lemma capture_noise_no_assert:
  assumes "slice_ok cfg (writer s)"
  shows "capture_noise ext cfg blk s \<noteq> Inl AssertionFailed"
proof -
  define s1 where "s1 = s\<lparr>synced_signal :=
     freq_shift (samples blk) (block_len cfg) (- carrier_pos s) (sample_phase s)\<rparr>"
  have "slice_ok cfg (writer s1)" using assms by (simp add: s1_def)
  then have "slice_ok cfg (writer (open_noise_cycle cfg blk s1))"
    using open_noise_cycle_writer [of cfg blk s1] writer_invD(2) [OF writer_inv_slice_ok] by auto
  then show ?thesis
    unfolding capture_noise_def Let_def s1_def by (rule extract_corr_blocks_no_assert)
qed

lemma search_and_extract_no_assert:
  assumes "slice_ok cfg (writer s)"
  shows "search_and_extract ext cfg blk s \<noteq> Inl AssertionFailed"
proof -
  have "slice_ok cfg (writer (search_beacon ext cfg blk s))"
    using search_beacon_writer [of ext cfg blk s] writer_invD(2) [OF writer_inv_slice_ok assms] assms
    by auto
  then show ?thesis
    using extract_corr_blocks_no_assert [of cfg "search_beacon ext cfg blk s" ext]
    by (simp add: search_and_extract_def Let_def)
qed

lemma process_block_no_assert:
  assumes "slice_ok cfg (writer s)"
  shows "process_block ext cfg blk s \<noteq> Inl AssertionFailed"
proof -
  define s2 where "s2 = update_averages cfg (snd (recover_carrier ext cfg blk s))"
  have p2: "slice_ok cfg (writer s2)" using assms by (simp add: s2_def)
  show ?thesis
    using capture_noise_no_assert [OF assms, of ext blk]
      search_and_extract_no_assert [OF p2, of ext blk]
    by (simp add: process_block_def case_prod_beta s2_def Let_def)
qed

lemma next_block_no_assert:
  assumes "slice_ok cfg (writer s)"
  shows "next_block ext cfg input s \<noteq> Inl AssertionFailed"
proof -
  define s1 where "s1 = stop_at_last_block (switch_preamp cfg s)"
  have p1: "slice_ok cfg (writer s1)"
    unfolding s1_def using writer_inv_slice_ok assms by (rule switch_preamp_inv)
  show ?thesis
  proof (cases "reader_next s1 input")
    case None
    then show ?thesis by (simp add: next_block_def s1_def Let_def)
  next
    case (Some blk)
    define s2 where "s2 = s1\<lparr>block_idx := block_idx s1 + 1\<rparr>"
    have p2: "slice_ok cfg (writer s2)" using p1 by (simp add: s2_def)
    have "next_block ext cfg input s = map_sum id (Pair True) (process_block ext cfg blk s2)"
      using Some by (simp add: next_block_def s1_def s2_def Let_def)
    then show ?thesis
      using process_block_no_assert [OF p2, of ext blk]
      by (cases "process_block ext cfg blk s2") simp_all
  qed
qed

lemma run_blocks_no_assert:
  "slice_ok cfg (writer s) \<Longrightarrow> run_blocks ext cfg s blks \<noteq> Inl AssertionFailed"
proof (induction blks arbitrary: s)
  case Nil
  then show ?case by simp
next
  case (Cons blk blks)
  show ?case
  proof (cases "next_block ext cfg (Some blk) s")
    case (Inl e)
    with next_block_no_assert [OF Cons.prems, of ext "Some blk"] show ?thesis by simp
  next
    case (Inr p)
    obtain running t where p: "p = (running, t)" by (cases p)
    have "slice_ok cfg (writer t)"
      using writer_inv_slice_ok Cons.prems Inr [unfolded p] by (rule next_block_inv)
    from Cons.IH [OF this] Inr p show ?thesis by simp
  qed
qed

lemma main_loop_no_assert:
  assumes "slice_ok cfg (writer s)"
  shows "main_loop ext cfg s blks \<noteq> Inl AssertionFailed"
proof (cases "run_blocks ext cfg s blks")
  case (Inl e)
  with run_blocks_no_assert [OF assms, of ext blks] show ?thesis by (simp add: main_loop_def)
next
  case (Inr p)
  obtain running t where p: "p = (running, t)" by (cases p)
  have t: "slice_ok cfg (writer t)"
    using writer_inv_slice_ok assms Inr [unfolded p] by (rule run_blocks_inv)
  show ?thesis
    using next_block_no_assert [OF t, of ext None] Inr p
    by (cases "next_block ext cfg None t") (simp_all add: main_loop_def)
qed

subsection \<open>The started pipeline\<close>

lemma started_writer:
  "writer (started cfg has_sink u) =
     write_file_header \<lparr>out = (if has_sink then Some [] else None), slice_size_member = 0, calls = []\<rparr>
       \<lparr>slice_start_idx = word_of_int (slice_start cfg), slice_size = word_of_int (slice_len cfg)\<rparr>"
  by (simp add: started_def start_def new_ArrayDetector_def Let_def)

lemma started_cycle [simp]: "cycle (started cfg has_sink u) = - 1"
  by (simp add: started_def start_def new_ArrayDetector_def Let_def)

lemma started_slice_ok: "slice_ok cfg (writer (started cfg has_sink u))"
proof (cases has_sink)
  case True
  then have "\<not> is_void \<lparr>out = (if has_sink then Some [] else None), slice_size_member = 0, calls = []\<rparr>"
    by (simp add: is_void_def)
  then show ?thesis
    by (simp add: started_writer slice_ok_def slice_write_file_header)
next
  case False
  then show ?thesis by (simp add: started_writer slice_ok_def) (simp add: is_void_def)
qed

subsection \<open>C1: every cycle that is started is stopped\<close>

lemma pending_ops [simp]:
  "pending (write_cycle_stop w) = pending w - 1"
  "pending (write_cycle_start w h) = pending w + 1"
  "pending (write_file_header w fh) = pending w"
  by (simp_all add: pending_def num_starts_def num_stops_def)

lemma pending_write_cycle_block:
  "write_cycle_block w e d l = Inr w' \<Longrightarrow> pending w' = pending w"
  by (drule write_cycle_block_Inr(1)) (simp add: pending_def num_starts_def num_stops_def)

lemma extract_cycle_pending:
  assumes "extract_cycle ext cfg s = Inr (Some s')"
  shows "pending (writer s') = pending (writer s)"
  using assms by (elim extract_cycle_SomeE) (rule pending_write_cycle_block)

lemma extract_loop_cycle:
  "0 \<le> cycle s \<Longrightarrow> extract_loop ext cfg s = Inr s' \<Longrightarrow>
   cycle s \<le> cycle s' \<and> pending (writer s') = pending (writer s)"
proof (induction ext cfg s rule: extract_loop.induct)
  case (1 ext cfg s)
  show ?case
  proof (cases "cycle s < num_cycles cfg")
    case False
    with "1.prems" show ?thesis by (simp add: extract_loop.simps)
  next
    case True
    show ?thesis
    proof (cases "extract_cycle ext cfg s")
      case (Inl e)
      with True "1.prems" show ?thesis by (simp add: extract_loop.simps)
    next
      case (Inr r)
      show ?thesis
      proof (cases r)
        case None
        with True Inr "1.prems" show ?thesis by (simp add: extract_loop.simps)
      next
        case (Some t)
        have t: "cycle t = cycle s" "pending (writer t) = pending (writer s)"
          using Inr Some cycle_extract_cycle [of ext cfg s t] extract_cycle_pending [of ext cfg s t]
          by simp_all
        have "extract_loop ext cfg (t\<lparr>cycle := cycle t + 1\<rparr>) = Inr s'"
          using True Inr Some "1.prems"(2) by (simp add: extract_loop.simps [of ext cfg s])
        with "1.IH" [OF True Inr Some] t "1.prems"(1) show ?thesis by simp
      qed
    qed
  qed
qed

lemma extract_corr_blocks_cycle_inv:
  assumes "cycle_inv s" "0 \<le> cycle s" "extract_corr_blocks ext cfg s = Inr s'"
  shows "cycle_inv s'"
proof -
  from assms(3) obtain t where t: "extract_loop ext cfg s = Inr t"
    and s': "s' = (if cycle t \<ge> num_cycles cfg
                  then (t\<lparr>cycle := - 1\<rparr>)\<lparr>writer := write_cycle_stop (writer t)\<rparr> else t)"
    by (auto simp: extract_corr_blocks_def split: sum.splits)
  from extract_loop_cycle [OF assms(2) t] assms(1,2) show ?thesis
    by (simp add: s' cycle_inv_def)
qed

lemma cycle_inv_frame:
  "writer t = writer s \<Longrightarrow> cycle t = cycle s \<Longrightarrow> cycle_inv t = cycle_inv s"
  by (simp add: cycle_inv_def)

lemma open_noise_cycle_cycle_inv:
  "cycle_inv s \<Longrightarrow> cycle_inv (open_noise_cycle cfg blk s) \<and> 0 \<le> cycle (open_noise_cycle cfg blk s)"
  by (auto simp: open_noise_cycle_def Let_def cycle_inv_def split: if_splits)

lemma capture_noise_cycle_inv:
  assumes "cycle_inv s" "capture_noise ext cfg blk s = Inr s'"
  shows "cycle_inv s'"
proof -
  define s1 where "s1 = s\<lparr>synced_signal :=
     freq_shift (samples blk) (block_len cfg) (- carrier_pos s) (sample_phase s)\<rparr>"
  have "cycle_inv s1" using assms(1) by (simp add: s1_def cycle_inv_def)
  from open_noise_cycle_cycle_inv [OF this, of cfg blk] assms(2) show ?thesis
    by (auto simp: capture_noise_def s1_def Let_def intro: extract_corr_blocks_cycle_inv)
qed

lemma search_beacon_cycle_inv:
  "cycle_inv s \<Longrightarrow> cycle_inv (search_beacon ext cfg blk s)"
  using search_beacon_writer [of ext cfg blk s]
  by (auto simp: cycle_inv_def)

lemma search_and_extract_cycle_inv:
  assumes "cycle_inv s" "search_and_extract ext cfg blk s = Inr s'"
  shows "cycle_inv s'"
  using search_beacon_cycle_inv [OF assms(1), of ext cfg blk] assms(2)
  by (auto simp: search_and_extract_def Let_def split: if_splits
      intro: extract_corr_blocks_cycle_inv)

lemma process_block_cycle_inv:
  assumes "cycle_inv s" "process_block ext cfg blk s = Inr s'"
  shows "cycle_inv s'"
proof -
  define s2 where "s2 = update_averages cfg (snd (recover_carrier ext cfg blk s))"
  have p2: "cycle_inv s2" using assms(1) by (simp add: s2_def cycle_inv_def)
  have p1: "cycle_inv (s\<lparr>blocks_skip := blocks_skip s - 1\<rparr>)"
    using assms(1) by (simp add: cycle_inv_def)
  from assms(2) show ?thesis
    using capture_noise_cycle_inv [OF assms(1), of ext cfg blk s']
      search_and_extract_cycle_inv [OF p2, of ext cfg blk s'] p1 p2
    by (auto simp: process_block_def case_prod_beta s2_def Let_def split: if_splits)
qed

lemma switch_preamp_cycle_inv:
  "cycle_inv s \<Longrightarrow> cycle_inv (stop_at_last_block (switch_preamp cfg s))"
  by (simp add: cycle_inv_def switch_preamp_writer switch_preamp_cycle)

lemma next_block_cycle_inv:
  assumes "cycle_inv s" "next_block ext cfg input s = Inr (r, s')"
  shows "if r then cycle_inv s' else pending (writer s') = 0"
proof -
  define s1 where "s1 = stop_at_last_block (switch_preamp cfg s)"
  have p1: "cycle_inv s1" unfolding s1_def using assms(1) by (rule switch_preamp_cycle_inv)
  show ?thesis
  proof (cases "reader_next s1 input")
    case None
    then have "\<not> r" "s' = (if cycle s1 \<ge> 0 then s1\<lparr>writer := write_cycle_stop (writer s1)\<rparr> else s1)"
      using assms(2) by (auto simp: next_block_def s1_def Let_def)
    then show ?thesis using p1 by (simp add: cycle_inv_def)
  next
    case (Some blk)
    define s2 where "s2 = s1\<lparr>block_idx := block_idx s1 + 1\<rparr>"
    have p2: "cycle_inv s2" using p1 by (simp add: s2_def cycle_inv_def)
    from assms(2) Some have "map_sum id (Pair True) (process_block ext cfg blk s2) = Inr (r, s')"
      by (simp add: next_block_def s1_def s2_def Let_def)
    then have "r" "process_block ext cfg blk s2 = Inr s'"
      by (cases "process_block ext cfg blk s2"; simp)+
    with p2 show ?thesis by (simp add: process_block_cycle_inv)
  qed
qed

lemma run_blocks_cycle_inv:
  "cycle_inv s \<Longrightarrow> run_blocks ext cfg s blks = Inr (r, s') \<Longrightarrow>
   (if r then cycle_inv s' else pending (writer s') = 0)"
proof (induction blks arbitrary: s)
  case Nil
  then show ?case by simp
next
  case (Cons blk blks)
  from Cons.prems(2) obtain running t where
    n: "next_block ext cfg (Some blk) s = Inr (running, t)"
    by (cases "next_block ext cfg (Some blk) s") auto
  note step = next_block_cycle_inv [OF Cons.prems(1) n]
  show ?case
  proof (cases running)
    case True
    with n Cons.prems(2) have "run_blocks ext cfg t blks = Inr (r, s')" by simp
    with Cons.IH [of t] step True show ?thesis by simp
  next
    case False
    with n Cons.prems(2) have "s' = t" "\<not> r" by simp_all
    with step False show ?thesis by simp
  qed
qed

lemma main_loop_pending:
  assumes "cycle_inv s" "main_loop ext cfg s blks = Inr s'"
  shows "pending (writer s') = 0"
  using assms(2)
proof (cases rule: main_loop_cases)
  case stopped
  with run_blocks_cycle_inv [OF assms(1), of ext cfg blks False s'] show ?thesis by simp
next
  case (ended t q)
  from run_blocks_cycle_inv [OF assms(1) ended(1)] have t: "cycle_inv t" by simp
  have "\<not> q" using ended(2) by (auto simp: next_block_def reader_next_def Let_def)
  with next_block_cycle_inv [OF t ended(2)] show ?thesis by simp
qed

lemma started_cycle_inv: "cycle_inv (started cfg has_sink u)"
  by (simp add: cycle_inv_def started_writer) (simp add: pending_def num_starts_def num_stops_def)

text \<open>
  The calls recorded on a run from the started pipeline. When the pipeline exits, because
  the reader has no more blocks, was cancelled, or was stopped at \<open>last_block\<close>, they
  contain as many \<open>write_cycle_stop\<close> as \<open>write_cycle_start\<close>. While it runs, after any
  number of blocks, \<open>cycle_\<close> is \<open>-1\<close> exactly when every start has its stop and
  non-negative exactly when one start is pending.
\<close>

lemma stops_match_starts_on_runs:
  "(main_loop ext cfg (started cfg has_sink u) blks = Inr s \<or>
    run_blocks ext cfg (started cfg has_sink u) blks = Inr (False, s) \<longrightarrow>
      num_stops (writer s) = num_starts (writer s)) \<and>
   (run_blocks ext cfg (started cfg has_sink u) blks = Inr (True, s) \<longrightarrow>
      - 1 \<le> cycle s \<and>
      (cycle s = - 1 \<longleftrightarrow> num_starts (writer s) = num_stops (writer s)) \<and>
      (0 \<le> cycle s \<longleftrightarrow> num_starts (writer s) = num_stops (writer s) + 1))"
proof -
  note init = started_cycle_inv [of cfg has_sink u]
  have "pending (writer s) = 0"
    if "main_loop ext cfg (started cfg has_sink u) blks = Inr s \<or>
        run_blocks ext cfg (started cfg has_sink u) blks = Inr (False, s)"
    using that main_loop_pending [OF init] run_blocks_cycle_inv [OF init, where r = False]
    by fastforce
  moreover have "cycle_inv s"
    if "run_blocks ext cfg (started cfg has_sink u) blks = Inr (True, s)"
    using run_blocks_cycle_inv [OF init that] by simp
  ultimately show ?thesis
    by (auto simp: cycle_inv_def pending_def split: if_splits)
qed

text \<open>
  C1 (the code at a failing input): the claim has \<open>cycle_idx\<close> equal to \<open>-1\<close> exactly when
  no \<open>write_cycle_start\<close> awaits its \<open>write_cycle_stop\<close>, also at the exits. When the
  reader returns no block, \<open>next()\<close> writes the stop of an open cycle and returns false
  without setting \<open>cycle_\<close> to \<open>-1\<close>, which the switch of the preamplifier and the end of
  \<open>extract_corr_blocks\<close> do with the same call. On the run of a block with the carrier
  and a silent block, in which a beacon opens a cycle, the input then ends: the pipeline
  exits with one start and one stop recorded and with \<open>cycle_ = 0\<close>. One more call of
  \<open>next()\<close> in that state records a second stop for the one start.
\<close>

theorem exit_keeps_cycle_index:
  "\<exists>s s'.
     main_loop example_ext (example_cfg\<lparr>sdr_freq := 1000000\<rparr>)
       (started (example_cfg\<lparr>sdr_freq := 1000000\<rparr>) True blank)
       [tone_block, quiet_block] = Inr s \<and>
     num_starts (writer s) = 1 \<and> num_stops (writer s) = 1 \<and>
     cycle s = 0 \<and> cycle s \<noteq> - 1 \<and>
     next_block example_ext (example_cfg\<lparr>sdr_freq := 1000000\<rparr>) None s = Inr (False, s') \<and>
     num_starts (writer s') = 1 \<and> num_stops (writer s') = 2"
  by (simp add: eval_defs num_starts_def num_stops_def)

subsection \<open>C2: loss of tracking\<close>

text \<open>
  C2 (the code at a failing input): the claim declares the carrier lost when the absolute
  angle difference exceeds 50 degrees. The source tests \<open>angle_diff * 360 > 50\<close> without
  the absolute value. After a first block that locks the carrier at bin 0 with a DC angle
  of 0, a block whose DC angle is a quarter turn back gives an angle difference of \<open>-90\<close>
  degrees: the carrier stays detected and the carrier position moves by
  \<open>0.2 * (-0.25) = -0.05\<close>.
\<close>

theorem tracking_keeps_negative_jump:
  "\<exists>s1 s2.
     run_blocks example_ext example_cfg (started example_cfg True blank) [tone_block]
       = Inr (True, s1) \<and>
     detected_carrier s1 \<and> dc_angle s1 = 0 \<and> carrier_pos s1 = 0 \<and>
     run_blocks example_ext example_cfg (started example_cfg True blank)
       [tone_block, tone_block\<lparr>samples := [- \<i>, 0, 0, 0]\<rparr>] = Inr (True, s2) \<and>
     prev_dc_angle s2 = 0 \<and> dc_angle s2 = - 1/4 \<and>
     \<bar>normalize_deciangle (dc_angle s2 - prev_dc_angle s2)\<bar> * 360 = 90 \<and>
     detected_carrier s2 \<and> carrier_pos s2 = - 1/20"
  by (simp add: eval_defs)

subsection \<open>C3: range of normalised angles\<close>

text \<open>
  C3 (as stated, refuted): the claim puts every result of \<open>normalize_deciangle\<close> in the
  half-open interval from \<open>-0.5\<close> to \<open>+0.5\<close>. At the input \<open>-0.5\<close> the function rounds
  away from zero to \<open>-1\<close> and returns \<open>+0.5\<close>, which is outside that interval.
\<close>

theorem normalize_deciangle_half_open_counterexample:
  "normalize_deciangle (- 1/2) = 1/2 \<and>
   \<not> (- 1/2 \<le> normalize_deciangle (- 1/2) \<and> normalize_deciangle (- 1/2) < 1/2)"
  by (simp add: normalize_deciangle_def c_round_def)

text \<open>
  C3 (amended): for every input angle the result of \<open>normalize_deciangle\<close> lies in the
  closed interval from \<open>-0.5\<close> to \<open>+0.5\<close>, and it is the input minus an integer nearest
  to it (no integer \<open>k\<close> is closer to the input than the one subtracted).
\<close>

theorem normalize_deciangle_closed_range:
  "- 1/2 \<le> normalize_deciangle a \<and> normalize_deciangle a \<le> 1/2 \<and>
   normalize_deciangle a = a - of_int (c_round a) \<and>
   \<bar>a - of_int (c_round a)\<bar> \<le> \<bar>a - of_int k\<bar>"
proof -
  have "\<bar>a - of_int (c_round a)\<bar> \<le> 1/2" by (rule c_round_bounds)
  then have "- 1/2 \<le> a - of_int (c_round a)" "a - of_int (c_round a) \<le> 1/2"
    by linarith+
  then show ?thesis
    using c_round_nearest [of a k] by (simp add: normalize_deciangle_def)
qed

subsection \<open>C4: the phase error byte\<close>

lemma sint_byte: "- 128 \<le> e \<Longrightarrow> e \<le> 127 \<Longrightarrow> sint (word_of_int e :: byte) = e"
  by (simp add: sint_sbintrunc' signed_take_bit_int_eq_self)

text \<open>
  C4: the quantised phase error of a corrected block lies between \<open>-127\<close> and \<open>+127\<close> and
  is written as the byte of that value, so it is never the terminator \<open>-128\<close>; in every
  run of the started pipeline no assertion of \<open>write_cycle_block\<close> fires, and every
  \<open>write_cycle_block\<close> call carries a phase error in that range. The argument of a complex
  number is at most half a turn, which the truncating conversion takes to at most 127.
\<close>

theorem phase_error_bytes_in_range:
  "- 127 \<le> error_fp (corr_phase_error z) \<and> error_fp (corr_phase_error z) \<le> 127 \<and>
   sint (word_of_int (error_fp (corr_phase_error z)) :: byte) = error_fp (corr_phase_error z) \<and>
   run_blocks ext cfg (started cfg has_sink u) blks \<noteq> Inl AssertionFailed \<and>
   main_loop ext cfg (started cfg has_sink u) blks \<noteq> Inl AssertionFailed \<and>
   (run_blocks ext cfg (started cfg has_sink u) blks = Inr (r, s) \<or>
    main_loop ext cfg (started cfg has_sink u) blks = Inr s \<longrightarrow>
      list_all phase_error_in_range (calls (writer s)))"
proof -
  have range: "- 127 \<le> error_fp (corr_phase_error z) \<and> error_fp (corr_phase_error z) \<le> 127"
    by (rule error_fp_phase_error)
  then have byte: "sint (word_of_int (error_fp (corr_phase_error z)) :: byte)
      = error_fp (corr_phase_error z)"
    by (intro sint_byte) simp_all
  have c0: "list_all phase_error_in_range (calls (writer (started cfg has_sink u)))"
    by (simp add: started_writer)
  have calls: "list_all phase_error_in_range (calls (writer s))"
    if "run_blocks ext cfg (started cfg has_sink u) blks = Inr (r, s) \<or>
        main_loop ext cfg (started cfg has_sink u) blks = Inr s"
    using that run_blocks_inv [OF writer_inv_phase_range c0]
      main_loop_inv [OF writer_inv_phase_range c0]
    by blast
  show ?thesis
    using range byte calls run_blocks_no_assert [OF started_slice_ok]
      main_loop_no_assert [OF started_slice_ok]
    by blast
qed

theorem phase_error_bytes_in_range_witness:
  "\<exists>s. main_loop example_ext example_cfg (started example_cfg True blank)
          [tone_block, quiet_block] = Inr s \<and>
       WriteCycleBlock 0 [0, 0] 2 \<in> set (calls (writer s)) \<and>
       list_all phase_error_in_range (calls (writer s))"
  using phase_error_bytes_in_range [of _ example_ext example_cfg True blank
      "[tone_block, quiet_block]"]
  by (simp add: eval_defs)

subsection \<open>C5: the beacon count\<close>

lemma find_beacon_detected:
  assumes "corr_detected (fst (find_beacon ext cfg s))"
  shows "soa (snd (find_beacon ext cfg s)) =
           real (stride cfg * block_idx s + peak_idx (fst (find_beacon ext cfg s)))
           + peak_offset (fst (find_beacon ext cfg s))"
    and "prev_soa (snd (find_beacon ext cfg s)) = soa s"
    and "beacon (snd (find_beacon ext cfg s)) =
           beacon s +
           (if 0 < beacon s \<and>
               3/2 < (soa (snd (find_beacon ext cfg s)) - soa s) / real (sdr_sample_rate cfg)
            then c_round ((soa (snd (find_beacon ext cfg s)) - soa s) / real (sdr_sample_rate cfg))
            else 1)"
  using assms by (auto simp: find_beacon_def Let_def split: if_splits)

lemma c_round_two: "3/2 < x \<Longrightarrow> x < 5/2 \<Longrightarrow> c_round x = 2"
  unfolding c_round_def by (simp add: floor_eq_iff)

text \<open>
  C5 (as stated, refuted): the claim lets \<open>beacon_count\<close> advance by 2 whenever one pulse of
  a periodic train is omitted. With a pulse every 1000 samples at a sample rate of 1000,
  let the first detection of the run be at sample 1000 (the count goes from \<open>-1\<close> to 0) and
  the next one at sample 3000, the pulse at 2000 being omitted: the time step is 2, the
  count is not positive, and it advances by 1.
\<close>

theorem beacon_count_second_detection_counterexample:
  "corr_detected (fst (find_beacon example_ext
      (example_cfg\<lparr>block_len := 1000, sdr_sample_rate := 1000\<rparr>)
      (blank\<lparr>beacon := 0, soa := 1000, block_idx := 3\<rparr>))) \<and>
   (soa (snd (find_beacon example_ext
      (example_cfg\<lparr>block_len := 1000, sdr_sample_rate := 1000\<rparr>)
      (blank\<lparr>beacon := 0, soa := 1000, block_idx := 3\<rparr>))) - 1000) / 1000 = 2 \<and>
   beacon (snd (find_beacon example_ext
      (example_cfg\<lparr>block_len := 1000, sdr_sample_rate := 1000\<rparr>)
      (blank\<lparr>beacon := 0, soa := 1000, block_idx := 3\<rparr>))) = 1 \<and>
   beacon (snd (find_beacon example_ext
      (example_cfg\<lparr>block_len := 1000, sdr_sample_rate := 1000\<rparr>)
      (blank\<lparr>beacon := 0, soa := 1000, block_idx := 3\<rparr>))) \<noteq> 0 + 2"
  by (simp add: eval_defs)


text \<open>
  C5 (amended): on every positive beacon detection the sample of arrival is taken from
  the peak, and \<open>beacon_count\<close> advances by \<open>round(time_step)\<close> if it is positive and the
  time step exceeds 1.5 beacon intervals, and by 1 otherwise. In particular, when one pulse
  of a periodic train is omitted (a time step between 1.5 and 2.5), the count advances by
  2 provided it was positive before the later detection; when it was not (the first two
  detections of a run) it advances by 1.
\<close>

theorem beacon_count_advance:
  "corr_detected (fst (find_beacon ext cfg s)) \<longrightarrow>
     soa (snd (find_beacon ext cfg s)) =
       real (stride cfg * block_idx s + peak_idx (fst (find_beacon ext cfg s)))
       + peak_offset (fst (find_beacon ext cfg s)) \<and>
     prev_soa (snd (find_beacon ext cfg s)) = soa s \<and>
     beacon (snd (find_beacon ext cfg s)) =
       beacon s +
       (if 0 < beacon s \<and>
           3/2 < (soa (snd (find_beacon ext cfg s)) - soa s) / real (sdr_sample_rate cfg)
        then c_round ((soa (snd (find_beacon ext cfg s)) - soa s) / real (sdr_sample_rate cfg))
        else 1) \<and>
     (0 < beacon s \<and>
      3/2 < (soa (snd (find_beacon ext cfg s)) - soa s) / real (sdr_sample_rate cfg) \<and>
      (soa (snd (find_beacon ext cfg s)) - soa s) / real (sdr_sample_rate cfg) < 5/2 \<longrightarrow>
        beacon (snd (find_beacon ext cfg s)) = beacon s + 2) \<and>
     (beacon s \<le> 0 \<longrightarrow> beacon (snd (find_beacon ext cfg s)) = beacon s + 1)"
proof
  assume d: "corr_detected (fst (find_beacon ext cfg s))"
  note f = find_beacon_detected [OF d]
  show "soa (snd (find_beacon ext cfg s)) =
       real (stride cfg * block_idx s + peak_idx (fst (find_beacon ext cfg s)))
       + peak_offset (fst (find_beacon ext cfg s)) \<and>
     prev_soa (snd (find_beacon ext cfg s)) = soa s \<and>
     beacon (snd (find_beacon ext cfg s)) =
       beacon s +
       (if 0 < beacon s \<and>
           3/2 < (soa (snd (find_beacon ext cfg s)) - soa s) / real (sdr_sample_rate cfg)
        then c_round ((soa (snd (find_beacon ext cfg s)) - soa s) / real (sdr_sample_rate cfg))
        else 1) \<and>
     (0 < beacon s \<and>
      3/2 < (soa (snd (find_beacon ext cfg s)) - soa s) / real (sdr_sample_rate cfg) \<and>
      (soa (snd (find_beacon ext cfg s)) - soa s) / real (sdr_sample_rate cfg) < 5/2 \<longrightarrow>
        beacon (snd (find_beacon ext cfg s)) = beacon s + 2) \<and>
     (beacon s \<le> 0 \<longrightarrow> beacon (snd (find_beacon ext cfg s)) = beacon s + 1)"
    using f(1,2) c_round_two by (auto simp: f(3))
qed

theorem beacon_count_advance_witness:
  "corr_detected (fst (find_beacon example_ext
      (example_cfg\<lparr>block_len := 1000, sdr_sample_rate := 1000\<rparr>)
      (blank\<lparr>beacon := 1, soa := 1000, block_idx := 3\<rparr>))) \<and>
   (soa (snd (find_beacon example_ext
      (example_cfg\<lparr>block_len := 1000, sdr_sample_rate := 1000\<rparr>)
      (blank\<lparr>beacon := 1, soa := 1000, block_idx := 3\<rparr>))) - 1000) / 1000 = 2 \<and>
   beacon (snd (find_beacon example_ext
      (example_cfg\<lparr>block_len := 1000, sdr_sample_rate := 1000\<rparr>)
      (blank\<lparr>beacon := 1, soa := 1000, block_idx := 3\<rparr>))) = 3"
  using beacon_count_advance [where ext = example_ext
      and cfg = "example_cfg\<lparr>block_len := 1000, sdr_sample_rate := 1000\<rparr>"
      and s = "blank\<lparr>beacon := 1, soa := 1000, block_idx := 3\<rparr>"]
  by (simp add: eval_defs)

subsection \<open>C6: the acquired carrier position\<close>

lemma shift_and_measure_carrier_pos [simp]:
  "carrier_pos (shift_and_measure cfg blk s) = carrier_pos s"
  by (simp add: shift_and_measure_def Let_def)

lemma recover_carrier_unlocked:
  "\<not> detected_carrier s \<Longrightarrow> detected blk \<Longrightarrow>
   carrier_pos (snd (recover_carrier ext cfg blk s)) =
     signed_carrier_pos cfg (argmax blk) (interpolate_parabolic ext (fft_power blk) (argmax blk))"
  by (simp add: recover_carrier_def detect_carrier_def Let_def)

lemma signed_carrier_pos_range:
  assumes "m < block_len cfg" "\<bar>d\<bar> \<le> 1/2"
  shows "real (block_len cfg div 2) - real (block_len cfg) < signed_carrier_pos cfg m d"
    and "signed_carrier_pos cfg m d \<le> real (block_len cfg div 2)"
proof -
  have h: "real (block_len cfg div 2) \<le> real (block_len cfg) - 1"
  proof -
    have "block_len cfg div 2 + 1 \<le> block_len cfg" using assms(1) by linarith
    then have "real (block_len cfg div 2 + 1) \<le> real (block_len cfg)"
      by (simp only: of_nat_le_iff)
    then show ?thesis by simp
  qed
  have m: "real m \<le> real (block_len cfg) - 1" using assms(1) by (simp add: of_nat_diff Suc_leI)
  show "real (block_len cfg div 2) - real (block_len cfg) < signed_carrier_pos cfg m d"
    using assms(2) h by (auto simp: signed_carrier_pos_def Let_def abs_le_iff; linarith)
  show "signed_carrier_pos cfg m d \<le> real (block_len cfg div 2)"
    using assms(2) m h by (auto simp: signed_carrier_pos_def Let_def abs_le_iff; linarith)
qed

text \<open>
  C6 (as stated, refuted): the claim puts the acquired carrier position in the interval
  from \<open>-B/2\<close> (excluded) to \<open>+B/2\<close>. The source compares with \<open>block_len / 2\<close>, an
  integer division: with a block of 5 samples, the peak in bin 2 and an interpolation
  offset of \<open>0.25\<close>, the position \<open>2.25\<close> exceeds 2, and 5 is subtracted, which gives
  \<open>-2.75\<close>, below \<open>-2.5\<close>.
\<close>

theorem acquired_carrier_pos_odd_counterexample:
  "carrier_pos (snd (recover_carrier (example_ext\<lparr>interpolate_parabolic := (\<lambda>p m. 1/4)\<rparr>)
      (example_cfg\<lparr>block_len := 5\<rparr>)
      (tone_block\<lparr>samples := [1, 0, 0, 0, 0], argmax := 2\<rparr>)
      (started (example_cfg\<lparr>block_len := 5\<rparr>) True blank))) = - 11/4 \<and>
   \<not> (- (real (block_len (example_cfg\<lparr>block_len := 5\<rparr>)) / 2) < (- 11/4 :: real))"
  by (simp add: eval_defs)

text \<open>
  C6 (amended): on a carrier acquisition in the unlocked state, with the reported bin \<open>m\<close>
  below the block length \<open>B\<close> and an interpolation offset of at most \<open>0.5\<close> in absolute
  value, the new carrier position is \<open>m\<close> plus the offset, minus \<open>B\<close> when that sum exceeds
  the integer quotient \<open>B div 2\<close>; it lies above \<open>B div 2 - B\<close> and at most at \<open>B div 2\<close>,
  which for an even \<open>B\<close> is the interval from \<open>-B/2\<close> (excluded) to \<open>+B/2\<close>.
\<close>

theorem acquired_carrier_pos_range:
  "\<not> detected_carrier s \<and> detected blk \<and> argmax blk < block_len cfg \<and>
   \<bar>interpolate_parabolic ext (fft_power blk) (argmax blk)\<bar> \<le> 1/2 \<longrightarrow>
     carrier_pos (snd (recover_carrier ext cfg blk s)) =
       (if real (argmax blk) + interpolate_parabolic ext (fft_power blk) (argmax blk)
             > real (block_len cfg div 2)
        then real (argmax blk) + interpolate_parabolic ext (fft_power blk) (argmax blk)
               - real (block_len cfg)
        else real (argmax blk) + interpolate_parabolic ext (fft_power blk) (argmax blk)) \<and>
     real (block_len cfg div 2) - real (block_len cfg)
       < carrier_pos (snd (recover_carrier ext cfg blk s)) \<and>
     carrier_pos (snd (recover_carrier ext cfg blk s)) \<le> real (block_len cfg div 2) \<and>
     (even (block_len cfg) \<longrightarrow>
        - (real (block_len cfg) / 2) < carrier_pos (snd (recover_carrier ext cfg blk s)) \<and>
        carrier_pos (snd (recover_carrier ext cfg blk s)) \<le> real (block_len cfg) / 2)"
proof (intro impI, elim conjE)
  assume a: "\<not> detected_carrier s" "detected blk" "argmax blk < block_len cfg"
    "\<bar>interpolate_parabolic ext (fft_power blk) (argmax blk)\<bar> \<le> 1/2"
  let ?d = "interpolate_parabolic ext (fft_power blk) (argmax blk)"
  let ?c = "carrier_pos (snd (recover_carrier ext cfg blk s))"
  have c: "?c = signed_carrier_pos cfg (argmax blk) ?d"
    using a(1,2) by (rule recover_carrier_unlocked)
  have r: "real (block_len cfg div 2) - real (block_len cfg) < ?c" "?c \<le> real (block_len cfg div 2)"
    unfolding c using a(3,4) by (rule signed_carrier_pos_range)+
  have e: "real (block_len cfg div 2) = real (block_len cfg) / 2" if "even (block_len cfg)"
    using that by (auto elim: evenE)
  show "?c = (if real (argmax blk) + ?d > real (block_len cfg div 2)
              then real (argmax blk) + ?d - real (block_len cfg) else real (argmax blk) + ?d) \<and>
        real (block_len cfg div 2) - real (block_len cfg) < ?c \<and>
        ?c \<le> real (block_len cfg div 2) \<and>
        (even (block_len cfg) \<longrightarrow> - (real (block_len cfg) / 2) < ?c \<and> ?c \<le> real (block_len cfg) / 2)"
    using r e by (auto simp: c signed_carrier_pos_def Let_def)
qed

theorem acquired_carrier_pos_range_witness:
  "carrier_pos (snd (recover_carrier example_ext example_cfg (tone_block\<lparr>argmax := 3\<rparr>)
      (started example_cfg True blank))) = - 1 \<and>
   - (real (block_len example_cfg) / 2) < - 1 \<and> (- 1 :: real) \<le> real (block_len example_cfg) / 2"
  using acquired_carrier_pos_range [where ext = example_ext and cfg = example_cfg
      and blk = "tone_block\<lparr>argmax := 3\<rparr>" and s = "started example_cfg True blank"]
  by (simp add: eval_defs)

subsection \<open>C7: preamplifier switch and scheduled stop\<close>

lemma c_trunc_nonneg: "0 \<le> x \<Longrightarrow> c_trunc x = \<lfloor>x\<rfloor>"
  by (simp add: c_trunc_def)

lemma writer_inv_calls_prefix: "writer_inv cfg (\<lambda>w. prefix c (calls w))"
  unfolding writer_inv_def
  by (auto dest!: write_cycle_block_Inr(1) intro: prefix_order.trans)

lemma extract_cycle_leaves_switch:
  "extract_cycle ext cfg s = Inr (Some s') \<Longrightarrow>
   bias_tee s' = bias_tee s \<and> blocks_skip s' = blocks_skip s"
  by (auto simp: extract_cycle_def Let_def split: if_splits sum.splits list.splits)

lemma extract_loop_leaves_switch:
  "extract_loop ext cfg s = Inr s' \<Longrightarrow>
   bias_tee s' = bias_tee s \<and> blocks_skip s' = blocks_skip s"
proof (induction ext cfg s rule: extract_loop.induct)
  case (1 ext cfg s)
  show ?case
  proof (cases "cycle s < num_cycles cfg")
    case False
    with "1.prems" show ?thesis by (simp add: extract_loop.simps)
  next
    case True
    show ?thesis
    proof (cases "extract_cycle ext cfg s")
      case (Inl e)
      with True "1.prems" show ?thesis by (simp add: extract_loop.simps)
    next
      case (Inr r)
      show ?thesis
      proof (cases r)
        case None
        with True Inr "1.prems" show ?thesis by (simp add: extract_loop.simps)
      next
        case (Some t)
        have t: "bias_tee t = bias_tee s \<and> blocks_skip t = blocks_skip s"
          using Inr Some extract_cycle_leaves_switch [of ext cfg s t] by simp
        have "extract_loop ext cfg (t\<lparr>cycle := cycle t + 1\<rparr>) = Inr s'"
          using True Inr Some "1.prems" by (simp add: extract_loop.simps [of ext cfg s])
        with "1.IH" [OF True Inr Some] t show ?thesis by simp
      qed
    qed
  qed
qed

lemma capture_noise_leaves_switch:
  assumes "capture_noise ext cfg blk s = Inr s'"
  shows "bias_tee s' = bias_tee s \<and> blocks_skip s' = blocks_skip s"
proof -
  define s1 where "s1 = open_noise_cycle cfg blk (s\<lparr>synced_signal :=
     freq_shift (samples blk) (block_len cfg) (- carrier_pos s) (sample_phase s)\<rparr>)"
  have s1: "bias_tee s1 = bias_tee s \<and> blocks_skip s1 = blocks_skip s"
    by (simp add: s1_def open_noise_cycle_def Let_def)
  from assms obtain t where t: "extract_loop ext cfg s1 = Inr t"
    and s': "s' = (if cycle t \<ge> num_cycles cfg
                  then (t\<lparr>cycle := - 1\<rparr>)\<lparr>writer := write_cycle_stop (writer t)\<rparr> else t)"
    by (auto simp: capture_noise_def extract_corr_blocks_def s1_def Let_def split: sum.splits)
  from extract_loop_leaves_switch [OF t] s1 show ?thesis by (simp add: s')
qed

lemma next_block_at_preamp_off:
  assumes p: "0 < preamp_off_block s" "block_idx s = preamp_off_block s"
    and n: "next_block ext cfg input s = Inr (r, s')"
  defines "K \<equiv> nat \<lfloor>0.2 * real (sdr_sample_rate cfg) / real (block_len cfg - history_len cfg)\<rfloor>"
    and "c \<equiv> calls (writer s) @ (if 0 \<le> cycle s then [WriteCycleStop] else [])"
  shows "prefix c (calls (writer s'))"
    and "bias_tee s' = (if input_file cfg = ''rtlsdr'' then False else bias_tee s)"
    and "blocks_skip s' = K - (if r then 1 else 0)"
    and "\<not> r \<or> 0 < K \<Longrightarrow> cycle s' = (if 0 \<le> cycle s then - 1 else cycle s)"
    and "\<not> r \<or> 0 < K \<Longrightarrow> calls (writer s') = c"
    and "r \<and> K = 0 \<and> - 1 \<le> cycle s \<Longrightarrow>
         \<exists>h. prefix (c @ [WriteCycleStart h]) (calls (writer s'))"
proof -
  define s1 where "s1 = stop_at_last_block (switch_preamp cfg s)"
  have s1: "calls (writer s1) = c" "cycle s1 = (if 0 \<le> cycle s then - 1 else cycle s)"
    "bias_tee s1 = (if input_file cfg = ''rtlsdr'' then False else bias_tee s)"
    "blocks_skip s1 = K" "preamp_off_block s1 = preamp_off_block s" "block_idx s1 = block_idx s"
    using p
    by (simp_all add: s1_def stop_at_last_block_def switch_preamp_def Let_def set_bias_tee_def
        stride_def c_trunc_nonneg K_def c_def)
  have all: "prefix c (calls (writer s')) \<and>
    bias_tee s' = (if input_file cfg = ''rtlsdr'' then False else bias_tee s) \<and>
    blocks_skip s' = K - (if r then 1 else 0) \<and>
    (\<not> r \<or> 0 < K \<longrightarrow> cycle s' = (if 0 \<le> cycle s then - 1 else cycle s) \<and> calls (writer s') = c) \<and>
    (r \<and> K = 0 \<and> - 1 \<le> cycle s \<longrightarrow> (\<exists>h. prefix (c @ [WriteCycleStart h]) (calls (writer s'))))"
  proof (cases "reader_next s1 input")
    case None
    then have "\<not> r" "s' = (if cycle s1 \<ge> 0 then s1\<lparr>writer := write_cycle_stop (writer s1)\<rparr> else s1)"
      using n by (auto simp: next_block_def s1_def Let_def)
    moreover have "\<not> 0 \<le> cycle s1" using s1(2) by simp
    ultimately have "\<not> r" "s' = s1" by simp_all
    with s1 show ?thesis by simp
  next
    case (Some blk)
    define s2 where "s2 = s1\<lparr>block_idx := block_idx s1 + 1\<rparr>"
    from n Some have "map_sum id (Pair True) (process_block ext cfg blk s2) = Inr (r, s')"
      by (simp add: next_block_def s1_def s2_def Let_def)
    then have r: "r" and pb: "process_block ext cfg blk s2 = Inr s'"
      by (cases "process_block ext cfg blk s2"; simp)+
    show ?thesis
    proof (cases "K = 0")
      case False
      with pb s1 have "s' = s2\<lparr>blocks_skip := K - 1\<rparr>"
        by (simp add: process_block_def s2_def)
      with s1 r False show ?thesis by (simp add: s2_def)
    next
      case True
      with pb s1 p have cn: "capture_noise ext cfg blk s2 = Inr s'"
        by (simp add: process_block_def s2_def)
      have "prefix c (calls (writer s2))" using s1 by (simp add: s2_def)
      with writer_inv_calls_prefix [of cfg c] have pc: "prefix c (calls (writer s'))"
        using cn by (rule capture_noise_inv)
      have "\<exists>h. prefix (c @ [WriteCycleStart h]) (calls (writer s'))" if "- 1 \<le> cycle s"
      proof -
        define s3 where "s3 = s2\<lparr>synced_signal :=
          freq_shift (samples blk) (block_len cfg) (- carrier_pos s2) (sample_phase s2)\<rparr>"
        have "cycle s3 = - 1" "calls (writer s3) = c"
          using that s1 by (simp_all add: s3_def s2_def)
        with open_noise_cycle_writer [of cfg blk s3] obtain h where
          h: "calls (writer (open_noise_cycle cfg blk s3)) = c @ [WriteCycleStart h]"
          by auto
        have e: "extract_corr_blocks ext cfg (open_noise_cycle cfg blk s3) = Inr s'"
          using cn by (simp add: capture_noise_def s3_def Let_def)
        have "prefix (c @ [WriteCycleStart h]) (calls (writer (open_noise_cycle cfg blk s3)))"
          by (simp add: h)
        with writer_inv_calls_prefix [of cfg "c @ [WriteCycleStart h]"]
        have "prefix (c @ [WriteCycleStart h]) (calls (writer s'))"
          using e by (rule extract_corr_blocks_inv)
        then show ?thesis by blast
      qed
      with pc capture_noise_leaves_switch [OF cn] s1 r True show ?thesis by (simp add: s2_def)
    qed
  qed
  from all show "prefix c (calls (writer s'))"
    and "bias_tee s' = (if input_file cfg = ''rtlsdr'' then False else bias_tee s)"
    and "blocks_skip s' = K - (if r then 1 else 0)"
    and "\<not> r \<or> 0 < K \<Longrightarrow> cycle s' = (if 0 \<le> cycle s then - 1 else cycle s)"
    and "\<not> r \<or> 0 < K \<Longrightarrow> calls (writer s') = c"
    and "r \<and> K = 0 \<and> - 1 \<le> cycle s \<Longrightarrow>
         \<exists>h. prefix (c @ [WriteCycleStart h]) (calls (writer s'))"
    by simp_all
qed


lemma next_block_while_skipping:
  assumes "0 < preamp_off_block s" "block_idx s = preamp_off_block s"
    and "0 < nat \<lfloor>0.2 * real (sdr_sample_rate cfg) / real (block_len cfg - history_len cfg)\<rfloor>"
  shows "\<exists>r s'. next_block ext cfg input s = Inr (r, s')"
proof -
  define s1 where "s1 = stop_at_last_block (switch_preamp cfg s)"
  have "blocks_skip s1 \<noteq> 0"
    using assms
    by (simp add: s1_def stop_at_last_block_def switch_preamp_def Let_def set_bias_tee_def
        stride_def c_trunc_nonneg)
  then show ?thesis
    by (cases "reader_next s1 input") (auto simp: next_block_def s1_def Let_def process_block_def)
qed

lemma next_block_at_last_block:
  assumes "0 < last_block s" "block_idx s = last_block s"
  shows "\<exists>s'. next_block ext cfg input s = Inr (False, s') \<and> reader_cancelled s'"
proof -
  have "last_block (switch_preamp cfg s) = last_block s"
    "block_idx (switch_preamp cfg s) = block_idx s"
    by (simp_all add: switch_preamp_def Let_def set_bias_tee_def)
  with assms have c: "reader_cancelled (stop_at_last_block (switch_preamp cfg s))"
    by (simp add: stop_at_last_block_def)
  then have "reader_next (stop_at_last_block (switch_preamp cfg s)) input = None"
    by (simp add: reader_next_def)
  with c show ?thesis by (simp add: next_block_def Let_def)
qed

text \<open>
  C7: a call of \<open>next()\<close> at the block where \<open>block_idx_\<close> equals a positive
  \<open>preamp_off_block_\<close>. Whatever the call returns, the calls it makes on the writer begin
  with the \<open>write_cycle_stop\<close> of the open cycle, and with no such call when none is open;
  the bias tee is off afterwards (on a tuner; on other inputs \<open>set_bias_tee\<close> does
  nothing); and \<open>blocks_skip_\<close> has been set to \<open>0.2 * sample_rate / (block_len -
  history_len)\<close>, truncated: it has that value when the call returns false, and one less
  when the call returns true, the block read by this call being the first one skipped.
  When the call returns false or blocks are skipped, \<open>cycle_\<close> is \<open>-1\<close> after a cycle was
  open and the stop is the only call on the writer; and while blocks are skipped the call
  does return. When no block is to be skipped, the call goes on to capture noise: its
  next call on the writer is the \<open>write_cycle_start\<close> that is made when \<open>cycle_\<close> is \<open>-1\<close>. At the block where \<open>block_idx_\<close> equals a positive \<open>last_block_\<close> the call
  cancels the reader and returns false.
\<close>

theorem preamp_switch_and_scheduled_stop:
  "(0 < preamp_off_block s \<and> block_idx s = preamp_off_block s \<and>
    next_block ext cfg input s = Inr (r, s') \<longrightarrow>
      prefix (calls (writer s) @ (if 0 \<le> cycle s then [WriteCycleStop] else []))
        (calls (writer s')) \<and>
      bias_tee s' = (if input_file cfg = ''rtlsdr'' then False else bias_tee s) \<and>
      blocks_skip s' = nat \<lfloor>0.2 * real (sdr_sample_rate cfg) / real (block_len cfg - history_len cfg)\<rfloor> - (if r then 1 else 0) \<and>
      (\<not> r \<or> 0 < nat \<lfloor>0.2 * real (sdr_sample_rate cfg) / real (block_len cfg - history_len cfg)\<rfloor> \<longrightarrow>
         cycle s' = (if 0 \<le> cycle s then - 1 else cycle s) \<and>
         calls (writer s') = calls (writer s) @ (if 0 \<le> cycle s then [WriteCycleStop] else [])) \<and>
      (r \<and> nat \<lfloor>0.2 * real (sdr_sample_rate cfg) / real (block_len cfg - history_len cfg)\<rfloor> = 0 \<and> - 1 \<le> cycle s \<longrightarrow>
         (\<exists>h. prefix (calls (writer s) @ (if 0 \<le> cycle s then [WriteCycleStop] else [])
                        @ [WriteCycleStart h])
                (calls (writer s'))))) \<and>
   (0 < preamp_off_block s \<and> block_idx s = preamp_off_block s \<and> 0 < nat \<lfloor>0.2 * real (sdr_sample_rate cfg) / real (block_len cfg - history_len cfg)\<rfloor> \<longrightarrow>
      (\<exists>r s'. next_block ext cfg input s = Inr (r, s'))) \<and>
   (0 < last_block s \<and> block_idx s = last_block s \<longrightarrow>
      (\<exists>s'. next_block ext cfg input s = Inr (False, s') \<and> reader_cancelled s'))"
  using next_block_at_preamp_off [of s ext cfg input r s', unfolded append_assoc]
    next_block_while_skipping [of s cfg ext input]
    next_block_at_last_block [of s ext cfg input]
  by blast

theorem preamp_switch_and_scheduled_stop_witness:
  "(\<exists>s'. next_block example_ext example_cfg (Some quiet_block)
            (blank\<lparr>block_idx := 5, preamp_off_block := 5, cycle := 3, bias_tee := True\<rparr>)
          = Inr (True, s') \<and>
        calls (writer s') = [WriteCycleStop] \<and> cycle s' = - 1 \<and> \<not> bias_tee s' \<and>
        blocks_skip s' = 599 \<and> block_idx s' = 6) \<and>
   (\<exists>s'. next_block example_ext example_cfg (Some quiet_block)
            (blank\<lparr>block_idx := 5, preamp_off_block := 5, last_block := 5, cycle := 3,
                    bias_tee := True\<rparr>)
          = Inr (False, s') \<and>
        calls (writer s') = [WriteCycleStop] \<and> cycle s' = - 1 \<and> \<not> bias_tee s' \<and>
        blocks_skip s' = 600 \<and> block_idx s' = 5 \<and> reader_cancelled s')"
  using preamp_switch_and_scheduled_stop [where cfg = example_cfg and ext = example_ext
      and input = "Some quiet_block" and r = True
      and s = "blank\<lparr>block_idx := 5, preamp_off_block := 5, cycle := 3, bias_tee := True\<rparr>"
      and s' = "snd (projr (next_block example_ext example_cfg (Some quiet_block)
            (blank\<lparr>block_idx := 5, preamp_off_block := 5, cycle := 3, bias_tee := True\<rparr>)))"]
    preamp_switch_and_scheduled_stop [where cfg = example_cfg and ext = example_ext
      and input = "Some quiet_block" and r = False
      and s = "blank\<lparr>block_idx := 5, preamp_off_block := 5, last_block := 5, cycle := 3,
                    bias_tee := True\<rparr>"
      and s' = "snd (projr (next_block example_ext example_cfg (Some quiet_block)
            (blank\<lparr>block_idx := 5, preamp_off_block := 5, last_block := 5, cycle := 3,
                    bias_tee := True\<rparr>)))"]
  by (simp add: eval_defs)

subsection \<open>C8: the file header\<close>

lemma le16: "unat (w :: 16 word) = unat (ucast w :: 8 word) + 256 * unat (ucast (drop_bit 8 w) :: 8 word)"
proof -
  have "unat w < 65536" using unsigned_less [of w, where ?'a = nat] by simp
  then have "unat w div 256 < 256" by simp
  then show ?thesis
    by (simp add: unsigned_ucast_eq unat_drop_bit_eq take_bit_eq_mod drop_bit_eq_div unat_div)
qed

lemma file_begins_fwrite: "file_begins p w \<Longrightarrow> file_begins p (fwrite w items)"
  by (auto simp: file_begins_def fwrite_def split: option.splits)

lemma file_begins_called [simp]: "file_begins p (called w c) = file_begins p w"
  by (simp add: file_begins_def)

lemma writer_inv_file_begins: "writer_inv cfg (file_begins p)"
  unfolding writer_inv_def
  by (auto simp: write_cycle_stop_def write_cycle_start_def write_cycle_block_def
        write_cycle_block_internal_def Let_def
      intro!: file_begins_fwrite split: if_splits)

lemma write_file_header_out:
  "out w = Some f \<Longrightarrow>
   out (write_file_header w header) =
     Some (f @ [Byte 0x43, Byte 0x4F, Byte 0x52, Byte 0x58, Byte 0x01,
                Byte (ucast (slice_start_idx header)),
                Byte (ucast (drop_bit 8 (slice_start_idx header))),
                Byte (ucast (slice_size header)),
                Byte (ucast (drop_bit 8 (slice_size header)))])"
  by (simp add: write_file_header_def called_def is_void_def fwrite_def file_header_bytes_def Let_def)

text \<open>
  C8: on a writer with a sink, \<open>write_file_header\<close> appends the four bytes of \<open>CORX\<close>, the
  version byte 1, and the header as the low and high byte of \<open>slice_start_idx\<close> followed by
  the low and high byte of \<open>slice_size\<close>, nine bytes without padding; and since \<open>start()\<close>
  makes this call on the empty file before anything else is written, the file of every
  run begins with these nine bytes.
\<close>

theorem file_header_first:
  "(out w = Some f \<longrightarrow>
      out (write_file_header w header) =
        Some (f @ [Byte 0x43, Byte 0x4F, Byte 0x52, Byte 0x58, Byte 0x01,
                   Byte (ucast (slice_start_idx header)),
                   Byte (ucast (drop_bit 8 (slice_start_idx header))),
                   Byte (ucast (slice_size header)),
                   Byte (ucast (drop_bit 8 (slice_size header)))])) \<and>
   unat (slice_start_idx header) =
     unat (ucast (slice_start_idx header) :: byte)
     + 256 * unat (ucast (drop_bit 8 (slice_start_idx header)) :: byte) \<and>
   unat (slice_size header) =
     unat (ucast (slice_size header) :: byte)
     + 256 * unat (ucast (drop_bit 8 (slice_size header)) :: byte) \<and>
   map (\<lambda>c. Byte (of_char c)) ''CORX'' = [Byte 0x43, Byte 0x4F, Byte 0x52, Byte 0x58] \<and>
   (header = \<lparr>slice_start_idx = word_of_int (slice_start cfg),
               slice_size = word_of_int (slice_len cfg)\<rparr> \<and>
    (run_blocks ext cfg (started cfg True u) blks = Inr (r, s) \<or>
     main_loop ext cfg (started cfg True u) blks = Inr s) \<longrightarrow>
      file_begins [Byte 0x43, Byte 0x4F, Byte 0x52, Byte 0x58, Byte 0x01,
                   Byte (ucast (slice_start_idx header)),
                   Byte (ucast (drop_bit 8 (slice_start_idx header))),
                   Byte (ucast (slice_size header)),
                   Byte (ucast (drop_bit 8 (slice_size header)))] (writer s))"
proof -
  let ?p = "[Byte 0x43, Byte 0x4F, Byte 0x52, Byte 0x58, Byte 0x01,
             Byte (ucast (slice_start_idx header)),
             Byte (ucast (drop_bit 8 (slice_start_idx header))),
             Byte (ucast (slice_size header)),
             Byte (ucast (drop_bit 8 (slice_size header)))]"
  have run: "file_begins ?p (writer s)"
    if h: "header = \<lparr>slice_start_idx = word_of_int (slice_start cfg),
                       slice_size = word_of_int (slice_len cfg)\<rparr>"
      and r: "run_blocks ext cfg (started cfg True u) blks = Inr (r, s) \<or>
              main_loop ext cfg (started cfg True u) blks = Inr s"
  proof -
    have "out (writer (started cfg True u)) = Some ([] @ ?p)"
      unfolding started_writer h [symmetric] by (rule write_file_header_out) simp
    then have b: "file_begins ?p (writer (started cfg True u))"
      by (simp add: file_begins_def)
    from r show ?thesis
      using run_blocks_inv [OF writer_inv_file_begins b] main_loop_inv [OF writer_inv_file_begins b]
      by blast
  qed
  show ?thesis
    using write_file_header_out [of w f header] le16 run by simp
qed

theorem file_header_first_witness:
  "out \<lparr>out = Some [], slice_size_member = 0, calls = []\<rparr> = Some [] \<and>
   out (write_file_header \<lparr>out = Some [], slice_size_member = 0, calls = []\<rparr>
          \<lparr>slice_start_idx = 0, slice_size = 2\<rparr>) =
     Some [Byte 0x43, Byte 0x4F, Byte 0x52, Byte 0x58, Byte 0x01, Byte 0, Byte 0, Byte 2, Byte 0] \<and>
   (\<exists>s. main_loop example_ext example_cfg (started example_cfg True blank)
          [tone_block, quiet_block] = Inr s \<and>
        file_begins [Byte 0x43, Byte 0x4F, Byte 0x52, Byte 0x58, Byte 0x01,
                     Byte 0, Byte 0, Byte 2, Byte 0] (writer s))"
  using file_header_first [of "\<lparr>out = Some [], slice_size_member = 0, calls = []\<rparr>" "[]"
      "\<lparr>slice_start_idx = 0, slice_size = 2\<rparr>" example_cfg example_ext blank
      "[tone_block, quiet_block]"]
  by (simp add: eval_defs file_begins_def)

subsection \<open>C9: the writer without a sink\<close>

lemma without_sink_void [simp]: "is_void (without_sink w)"
  by (simp add: without_sink_def is_void_def)

lemma without_sink_called [simp]: "without_sink (called w c) = called (without_sink w) c"
  by (simp add: without_sink_def called_def)

lemma without_sink_fwrite [simp]: "without_sink (fwrite w items) = without_sink w"
  by (simp add: without_sink_def fwrite_def)

lemma without_sink_stop: "without_sink (write_cycle_stop w) = write_cycle_stop (without_sink w)"
  by (simp add: write_cycle_stop_def write_cycle_block_internal_def Let_def)

lemma without_sink_start:
  "without_sink (write_cycle_start w h) = write_cycle_start (without_sink w) h"
  by (simp add: write_cycle_start_def Let_def)

lemma without_sink_block:
  assumes "slice_ok cfg w" "- 127 \<le> e"
  shows "map_sum id without_sink (write_cycle_block w e d (word_of_int (slice_len cfg)))
         = write_cycle_block (without_sink w) e d (word_of_int (slice_len cfg))"
  using assms
  by (auto simp: write_cycle_block_def write_cycle_block_internal_def Let_def slice_ok_def)

lemma writer_non_output [simp]: "writer (non_output s) = without_sink (writer s)"
  by (simp add: non_output_def)

lemma non_output_writer_update [simp]:
  "non_output (s\<lparr>writer := w\<rparr>) = (non_output s)\<lparr>writer := without_sink w\<rparr>"
  by (simp add: non_output_def)

lemma non_output_steps:
  "non_output (stop_at_last_block s) = stop_at_last_block (non_output s)"
  "non_output (snd (set_bias_tee cfg on s)) = snd (set_bias_tee cfg on (non_output s))"
  "non_output (shift_and_measure cfg blk s) = shift_and_measure cfg blk (non_output s)"
  "non_output (track_carrier cfg blk s) = track_carrier cfg blk (non_output s)"
  "non_output (detect_carrier ext cfg blk s) = detect_carrier ext cfg blk (non_output s)"
  "non_output (update_averages cfg s) = update_averages cfg (non_output s)"
  by (simp_all add: non_output_def stop_at_last_block_def set_bias_tee_def shift_and_measure_def
      track_carrier_def detect_carrier_def update_averages_def Let_def)


lemma non_output_fields [simp]:
  "block_idx (non_output s) = block_idx s"
  "blocks_skip (non_output s) = blocks_skip s"
  "last_block (non_output s) = last_block s"
  "preamp_off_block (non_output s) = preamp_off_block s"
  "detected_carrier (non_output s) = detected_carrier s"
  "dc_ampl (non_output s) = dc_ampl s"
  "avg_dc_ampl (non_output s) = avg_dc_ampl s"
  "cycle (non_output s) = cycle s"
  "reader_cancelled (non_output s) = reader_cancelled s"
  "soa (non_output s) = soa s"
  "clock_error (non_output s) = clock_error s"
  "carrier_pos (non_output s) = carrier_pos s"
  "sample_phase (non_output s) = sample_phase s"
  "avg_dc_angle (non_output s) = avg_dc_angle s"
  "synced_signal (non_output s) = synced_signal s"
  "num_phase_errors (non_output s) = num_phase_errors s"
  by (simp_all add: non_output_def)

lemma non_output_recover_carrier:
  "map_prod id non_output (recover_carrier ext cfg blk s) = recover_carrier ext cfg blk (non_output s)"
proof -
  define s1 where "s1 = (if detected_carrier s then track_carrier cfg blk s else s)"
  define s2 where "s2 = (if \<not> detected_carrier s1 then detect_carrier ext cfg blk s1 else s1)"
  have 1: "(if detected_carrier s then track_carrier cfg blk (non_output s) else non_output s)
           = non_output s1"
    by (simp add: s1_def non_output_steps)
  have 2: "(if \<not> detected_carrier s1 then detect_carrier ext cfg blk (non_output s1)
            else non_output s1) = non_output s2"
    by (simp add: s2_def non_output_steps)
  have "recover_carrier ext cfg blk s = (detected_carrier s2, s2)"
    by (simp add: recover_carrier_def Let_def s1_def s2_def)
  moreover have "recover_carrier ext cfg blk (non_output s)
                 = (detected_carrier (non_output s2), non_output s2)"
    unfolding recover_carrier_def Let_def by (simp only: non_output_fields 1 2)
  ultimately show ?thesis by simp
qed


lemma non_output_find_beacon:
  "map_prod id non_output (find_beacon ext cfg s) = find_beacon ext cfg (non_output s)"
  by (simp add: find_beacon_def Let_def non_output_def)


lemma non_output_accept_beacon:
  "non_output (accept_beacon cfg blk corr s) = accept_beacon cfg blk corr (non_output s)"
  by (simp add: accept_beacon_def Let_def estimate_clock_error_def non_output_def without_sink_start)

lemma non_output_open_noise_cycle:
  "non_output (open_noise_cycle cfg blk s) = open_noise_cycle cfg blk (non_output s)"
  by (simp add: open_noise_cycle_def Let_def non_output_def without_sink_start)

lemma non_output_switch_preamp:
  "non_output (switch_preamp cfg s) = switch_preamp cfg (non_output s)"
  by (simp add: switch_preamp_def Let_def set_bias_tee_def non_output_def without_sink_stop)


lemma non_output_search_beacon:
  "non_output (search_beacon ext cfg blk s) = search_beacon ext cfg blk (non_output s)"
proof -
  obtain corr t where f: "find_beacon ext cfg s = (corr, t)" by (cases "find_beacon ext cfg s")
  then have g: "find_beacon ext cfg (non_output s) = (corr, non_output t)"
    using non_output_find_beacon [of ext cfg s] by simp
  show ?thesis
    by (simp add: search_beacon_def f g non_output_accept_beacon)
qed

lemma non_output_field_update [simp]:
  "non_output (s\<lparr>num_phase_errors := n\<rparr>) = (non_output s)\<lparr>num_phase_errors := n\<rparr>"
  "non_output (s\<lparr>cycle := c\<rparr>) = (non_output s)\<lparr>cycle := c\<rparr>"
  "non_output (s\<lparr>blocks_skip := k\<rparr>) = (non_output s)\<lparr>blocks_skip := k\<rparr>"
  "non_output (s\<lparr>block_idx := i\<rparr>) = (non_output s)\<lparr>block_idx := i\<rparr>"
  "non_output (s\<lparr>synced_signal := x\<rparr>) = (non_output s)\<lparr>synced_signal := x\<rparr>"
  by (simp_all add: non_output_def)

lemma non_output_extract_cycle:
  assumes "slice_ok cfg (writer s)"
  shows "map_sum id (map_option non_output) (extract_cycle ext cfg s)
         = extract_cycle ext cfg (non_output s)"
proof -
  have wb: "write_cycle_block (without_sink (writer s)) (error_fp (corr_phase_error z)) d
              (word_of_int (slice_len cfg))
            = map_sum id without_sink
                (write_cycle_block (writer s) (error_fp (corr_phase_error z)) d
                   (word_of_int (slice_len cfg)))" for z d
    using without_sink_block [OF assms, of "error_fp (corr_phase_error z)" d]
      error_fp_phase_error [of z] by simp
  have cs: "cycle_start cfg (non_output s) = cycle_start cfg s"
    by (simp add: cycle_start_def)
  show ?thesis
    by (auto simp: extract_cycle_def Let_def wb cs split: sum.splits list.splits)
qed


lemma non_output_extract_loop:
  "slice_ok cfg (writer s) \<Longrightarrow>
   map_sum id non_output (extract_loop ext cfg s) = extract_loop ext cfg (non_output s)"
proof (induction ext cfg s rule: extract_loop.induct)
  case (1 ext cfg s)
  note c = non_output_extract_cycle [OF "1.prems", of ext]
  show ?case
  proof (cases "cycle s < num_cycles cfg")
    case False
    then show ?thesis
      by (simp add: extract_loop.simps [of ext cfg s] extract_loop.simps [of ext cfg "non_output s"])
  next
    case True
    show ?thesis
    proof (cases "extract_cycle ext cfg s")
      case (Inl e)
      with c have "extract_cycle ext cfg (non_output s) = Inl e" by simp
      with True Inl show ?thesis
        by (simp add: extract_loop.simps [of ext cfg s] extract_loop.simps [of ext cfg "non_output s"])
    next
      case (Inr r)
      show ?thesis
      proof (cases r)
        case None
        with c Inr have "extract_cycle ext cfg (non_output s) = Inr None" by simp
        with True Inr None show ?thesis
          by (simp add: extract_loop.simps [of ext cfg s]
                extract_loop.simps [of ext cfg "non_output s"])
      next
        case (Some t)
        with c Inr have n: "extract_cycle ext cfg (non_output s) = Inr (Some (non_output t))"
          by simp
        have "slice_ok cfg (writer t)"
          using Inr Some
          by (intro extract_cycle_inv [OF writer_inv_slice_ok "1.prems", where ext = ext]) simp
        then have "slice_ok cfg (writer (t\<lparr>cycle := cycle t + 1\<rparr>))" by simp
        from "1.IH" [OF True Inr Some this] True Inr Some n show ?thesis
          by (simp add: extract_loop.simps [of ext cfg s]
                extract_loop.simps [of ext cfg "non_output s"])
      qed
    qed
  qed
qed

lemma non_output_extract_corr_blocks:
  assumes "slice_ok cfg (writer s)"
  shows "map_sum id non_output (extract_corr_blocks ext cfg s)
         = extract_corr_blocks ext cfg (non_output s)"
proof (cases "extract_loop ext cfg s")
  case (Inl e)
  with non_output_extract_loop [OF assms, of ext]
  have "extract_loop ext cfg (non_output s) = Inl e" by simp
  with Inl show ?thesis by (simp add: extract_corr_blocks_def)
next
  case (Inr t)
  with non_output_extract_loop [OF assms, of ext]
  have "extract_loop ext cfg (non_output s) = Inr (non_output t)" by simp
  with Inr show ?thesis by (simp add: extract_corr_blocks_def without_sink_stop)
qed

lemma non_output_capture_noise:
  assumes "slice_ok cfg (writer s)"
  shows "map_sum id non_output (capture_noise ext cfg blk s)
         = capture_noise ext cfg blk (non_output s)"
proof -
  define s1 where "s1 = s\<lparr>synced_signal :=
     freq_shift (samples blk) (block_len cfg) (- carrier_pos s) (sample_phase s)\<rparr>"
  have "slice_ok cfg (writer s1)" using assms by (simp add: s1_def)
  then have "slice_ok cfg (writer (open_noise_cycle cfg blk s1))"
    using open_noise_cycle_writer [of cfg blk s1] writer_invD(2) [OF writer_inv_slice_ok] by auto
  from non_output_extract_corr_blocks [OF this, of ext] show ?thesis
    by (simp add: capture_noise_def Let_def s1_def non_output_open_noise_cycle)
qed

lemma non_output_search_and_extract:
  assumes "slice_ok cfg (writer s)"
  shows "map_sum id non_output (search_and_extract ext cfg blk s)
         = search_and_extract ext cfg blk (non_output s)"
proof -
  have "slice_ok cfg (writer (search_beacon ext cfg blk s))"
    using search_beacon_writer [of ext cfg blk s] writer_invD(2) [OF writer_inv_slice_ok assms] assms
    by auto
  from non_output_extract_corr_blocks [OF this, of ext] show ?thesis
    by (simp add: search_and_extract_def Let_def non_output_search_beacon [symmetric])
qed

lemma non_output_process_block:
  assumes "slice_ok cfg (writer s)"
  shows "map_sum id non_output (process_block ext cfg blk s)
         = process_block ext cfg blk (non_output s)"
proof -
  define s2 where "s2 = update_averages cfg (snd (recover_carrier ext cfg blk s))"
  have p2: "slice_ok cfg (writer s2)" using assms by (simp add: s2_def)
  have r: "update_averages cfg (snd (recover_carrier ext cfg blk (non_output s))) = non_output s2"
    using non_output_recover_carrier [of ext cfg blk s]
    by (simp add: s2_def non_output_steps map_prod_def case_prod_beta
          prod_eq_iff)
  show ?thesis
    using non_output_capture_noise [OF assms, of ext blk]
      non_output_search_and_extract [OF p2, of ext blk]
    by (simp add: process_block_def case_prod_beta Let_def r s2_def [symmetric])
qed

lemma non_output_next_block:
  assumes "slice_ok cfg (writer s)"
  shows "map_sum id (map_prod id non_output) (next_block ext cfg input s)
         = next_block ext cfg input (non_output s)"
proof -
  define s1 where "s1 = stop_at_last_block (switch_preamp cfg s)"
  have p1: "slice_ok cfg (writer s1)"
    unfolding s1_def using writer_inv_slice_ok assms by (rule switch_preamp_inv)
  have n1: "stop_at_last_block (switch_preamp cfg (non_output s)) = non_output s1"
    by (simp add: s1_def non_output_switch_preamp non_output_steps)
  have rn: "reader_next (non_output s1) input = reader_next s1 input"
    by (simp add: reader_next_def)
  show ?thesis
  proof (cases "reader_next s1 input")
    case None
    then show ?thesis
      by (simp add: next_block_def n1 rn s1_def [symmetric] Let_def without_sink_stop)
  next
    case (Some blk)
    define s2 where "s2 = s1\<lparr>block_idx := block_idx s1 + 1\<rparr>"
    have p2: "slice_ok cfg (writer s2)" using p1 by (simp add: s2_def)
    have a: "next_block ext cfg input s = map_sum id (Pair True) (process_block ext cfg blk s2)"
      using Some by (simp add: next_block_def s1_def s2_def Let_def)
    have b: "next_block ext cfg input (non_output s)
             = map_sum id (Pair True) (process_block ext cfg blk (non_output s2))"
      using Some by (simp add: next_block_def n1 rn s2_def Let_def)
    have c: "process_block ext cfg blk (non_output s2)
             = map_sum id non_output (process_block ext cfg blk s2)"
      using non_output_process_block [OF p2, of ext blk] by simp
    show ?thesis
      unfolding a b c by (cases "process_block ext cfg blk s2") simp_all
  qed
qed


lemma non_output_run_blocks:
  "slice_ok cfg (writer s) \<Longrightarrow>
   map_sum id (map_prod id non_output) (run_blocks ext cfg s blks)
   = run_blocks ext cfg (non_output s) blks"
proof (induction blks arbitrary: s)
  case Nil
  then show ?case by simp
next
  case (Cons blk blks)
  note n = non_output_next_block [OF Cons.prems, of ext "Some blk", symmetric]
  show ?case
  proof (cases "next_block ext cfg (Some blk) s")
    case (Inl e)
    with n show ?thesis by simp
  next
    case (Inr p)
    obtain running t where p: "p = (running, t)" by (cases p)
    have "slice_ok cfg (writer t)"
      using writer_inv_slice_ok Cons.prems Inr [unfolded p] by (rule next_block_inv)
    from Cons.IH [OF this] n Inr p show ?thesis by simp
  qed
qed

lemma non_output_main_loop:
  assumes "slice_ok cfg (writer s)"
  shows "map_sum id non_output (main_loop ext cfg s blks) = main_loop ext cfg (non_output s) blks"
proof -
  note r = non_output_run_blocks [OF assms, of ext blks, symmetric]
  show ?thesis
  proof (cases "run_blocks ext cfg s blks")
    case (Inl e)
    with r show ?thesis by (simp add: main_loop_def)
  next
    case (Inr p)
    obtain running t where p: "p = (running, t)" by (cases p)
    have t: "slice_ok cfg (writer t)"
      using writer_inv_slice_ok assms Inr [unfolded p] by (rule run_blocks_inv)
    note n = non_output_next_block [OF t, of ext None, symmetric]
    show ?thesis
      using r Inr p n
      by (cases "next_block ext cfg None t") (auto simp: main_loop_def)
  qed
qed

lemma non_output_started: "non_output (started cfg True u) = started cfg False u"
  by (simp add: eval_defs non_output_def without_sink_def)

lemma non_output_idem [simp]: "non_output (non_output s) = non_output s"
  by (simp add: non_output_def without_sink_def)

lemma void_writes:
  assumes "is_void w"
  shows "write_file_header w fh = called w (WriteFileHeader fh)"
    and "write_cycle_start w bh = called w (WriteCycleStart bh)"
    and "write_cycle_block w e d l = Inr (called w (WriteCycleBlock e d l))"
    and "write_cycle_stop w = called w WriteCycleStop"
    and "out (called w c) = None"
  using assms
  by (simp_all add: write_file_header_def write_cycle_start_def write_cycle_block_def
      write_cycle_stop_def Let_def) (simp add: is_void_def)

lemma started_void: "is_void (writer (started cfg False u))"
  by (simp add: started_writer) (simp add: is_void_def)

text \<open>
  C9: on a writer without a sink every write operation returns at once, without an error:
  the writer is unchanged except for the record of the call, and nothing is written. For
  the same configuration, initial memory and blocks, the run without a sink and the run
  with a sink agree after every step, and at the exit, on the return value and on all
  state other than the file and \<open>slice_size_\<close> of the writer; they also end in the same
  error if the extractor leaves a buffer.
\<close>

theorem void_writer_frame:
  "(is_void w \<longrightarrow>
      write_file_header w fh = called w (WriteFileHeader fh) \<and>
      write_cycle_start w bh = called w (WriteCycleStart bh) \<and>
      write_cycle_block w e d l = Inr (called w (WriteCycleBlock e d l)) \<and>
      write_cycle_stop w = called w WriteCycleStop \<and>
      out (called w c) = None \<and> slice_size_member (called w c) = slice_size_member w) \<and>
   map_sum id (map_prod id non_output) (run_blocks ext cfg (started cfg False u) blks) =
   map_sum id (map_prod id non_output) (run_blocks ext cfg (started cfg True u) blks) \<and>
   map_sum id non_output (main_loop ext cfg (started cfg False u) blks) =
   map_sum id non_output (main_loop ext cfg (started cfg True u) blks) \<and>
   (run_blocks ext cfg (started cfg False u) blks = Inr (r, s) \<or>
    main_loop ext cfg (started cfg False u) blks = Inr s \<longrightarrow> out (writer s) = None)"
proof -
  have run: "run_blocks ext cfg (started cfg False u) blks
      = map_sum id (map_prod id non_output) (run_blocks ext cfg (started cfg True u) blks)"
    using non_output_run_blocks [OF started_slice_ok [of cfg True u], where ext = ext and blks = blks]
    by (simp add: non_output_started)
  have main: "main_loop ext cfg (started cfg False u) blks
      = map_sum id non_output (main_loop ext cfg (started cfg True u) blks)"
    using non_output_main_loop [OF started_slice_ok [of cfg True u], where ext = ext and blks = blks]
    by (simp add: non_output_started)
  have 1: "map_sum id (map_prod id non_output) (run_blocks ext cfg (started cfg False u) blks) =
      map_sum id (map_prod id non_output) (run_blocks ext cfg (started cfg True u) blks)"
    unfolding run by (cases "run_blocks ext cfg (started cfg True u) blks") auto
  have 2: "map_sum id non_output (main_loop ext cfg (started cfg False u) blks) =
      map_sum id non_output (main_loop ext cfg (started cfg True u) blks)"
    unfolding main by (cases "main_loop ext cfg (started cfg True u) blks") auto
  have 3: "out (writer s) = None"
    if "run_blocks ext cfg (started cfg False u) blks = Inr (r, s) \<or>
        main_loop ext cfg (started cfg False u) blks = Inr s"
  proof -
    have "is_void (writer s)"
      using that run_blocks_inv [OF writer_inv_void started_void]
        main_loop_inv [OF writer_inv_void started_void]
      by blast
    then show ?thesis by (simp add: is_void_def)
  qed
  show ?thesis
    using void_writes [where w = w] 1 2 3 by simp
qed

theorem void_writer_frame_witness:
  "is_void \<lparr>out = None, slice_size_member = 0, calls = []\<rparr> \<and>
   write_cycle_stop \<lparr>out = None, slice_size_member = 0, calls = []\<rparr>
     = \<lparr>out = None, slice_size_member = 0, calls = [WriteCycleStop]\<rparr> \<and>
   (\<exists>s t. main_loop example_ext example_cfg (started example_cfg False blank)
            [tone_block, quiet_block] = Inr s \<and>
          main_loop example_ext example_cfg (started example_cfg True blank)
            [tone_block, quiet_block] = Inr t \<and>
          out (writer s) = None \<and> out (writer t) \<noteq> None \<and>
          non_output s = non_output t \<and> cycle s = cycle t \<and> beacon s = beacon t \<and>
          calls (writer s) = calls (writer t))"
  using void_writer_frame [where w = "\<lparr>out = None, slice_size_member = 0, calls = []\<rparr>"
      and ext = example_ext and cfg = example_cfg and u = blank
      and blks = "[tone_block, quiet_block]"]
  by (simp add: eval_defs non_output_def without_sink_def)

subsection \<open>C10: the split point of \<open>fft_shift\<close>\<close>

lemma Arg_minus_one: "Arg (- 1) = pi"
  by (rule cis_Arg_unique) simp_all

lemma cis_minus_pi: "cis (- pi) = - 1"
  by (simp add: complex_eq_iff)

lemma cis_mult_left: "cis a * (cis b * z) = cis (a + b) * z"
  by (simp add: cis_mult mult.assoc [symmetric])

lemma pos_len_le:
  assumes "unat off \<le> unat len div 2"
  shows "pos_len len off \<le> len"
proof -
  have n: "unat len < 2 ^ 64" using unsigned_less [of len, where ?'a = nat] by simp
  have u: "unat (pos_len len off) = ((unat len + 1) mod 2 ^ 64 div 2 + unat off) mod 2 ^ 64"
    by (simp add: pos_len_def unat_word_ariths unat_div)
  show ?thesis
  proof (cases "unat len + 1 < 2 ^ 64")
    case True
    then have "(unat len + 1) mod 2 ^ 64 div 2 + unat off \<le> unat len"
      using assms by simp
    then show ?thesis using n by (simp add: word_le_nat_alt u)
  next
    case False
    with n have "unat len + 1 = 2 ^ 64" by simp
    then have "(unat len + 1) mod 2 ^ 64 div 2 + unat off \<le> unat len"
      using assms by simp
    then show ?thesis using n by (simp add: word_le_nat_alt u)
  qed
qed


lemma fft_shift_in_bounds:
  "pos_len len off \<le> len \<Longrightarrow> \<exists>dest. fft_shift src len f p off = Inr dest"
  by (simp add: fft_shift_def Let_def case_prod_beta not_less [symmetric])

lemma c_trunc_offset:
  assumes "- 1 < x" "x \<le> real n / 2"
  shows "0 \<le> c_trunc x" and "c_trunc x \<le> int (n div 2)"
proof -
  show "0 \<le> c_trunc x"
    using assms(1) by (auto simp: c_trunc_def)
  have "\<lfloor>x\<rfloor> \<le> \<lfloor>real n / 2\<rfloor>" using assms(2) by (rule floor_mono)
  also have "\<lfloor>real n / 2\<rfloor> = int (n div 2)"
    by (metis floor_divide_of_nat_eq of_nat_numeral)
  finally have fl: "\<lfloor>x\<rfloor> \<le> int (n div 2)" .
  show "c_trunc x \<le> int (n div 2)"
  proof (cases "0 \<le> x")
    case True
    with fl show ?thesis by (simp add: c_trunc_def)
  next
    case False
    then have "\<lceil>x\<rceil> \<le> 0" by (simp add: ceiling_le_iff)
    moreover have "0 \<le> int (n div 2)" by simp
    moreover have "c_trunc x = \<lceil>x\<rceil>" using False by (simp add: c_trunc_def)
    ultimately show ?thesis by linarith
  qed
qed

lemma offset_bounds:
  assumes "0 < B" "- (real B / 2) \<le> cp" "cp * real W < real B"
  shows "- 1 < - cp * real W / real B" and "- cp * real W / real B \<le> real W / 2"
proof -
  have B: "0 < real B" using assms(1) by simp
  have "cp * real W / real B < 1"
    using assms(3) B by (simp add: divide_less_eq)
  then show "- 1 < - cp * real W / real B" by simp
  have "- cp * real W \<le> real B / 2 * real W"
    using assms(2) by (intro mult_right_mono) simp_all
  then have "(- cp * real W) / real B \<le> (real B / 2 * real W) / real B"
    using B by (intro divide_right_mono) simp_all
  also have "(real B / 2 * real W) / real B = real W / 2" using B by simp
  finally show "- cp * real W / real B \<le> real W / 2" .
qed

lemma extractor_offset:
  assumes "0 < block_len cfg" "- (real (block_len cfg) / 2) \<le> carrier_pos s"
    "carrier_pos s * real (unat (corr_size cfg)) < real (block_len cfg)"
  shows "unat (float_to_size_t ext
           (- carrier_pos s * real (unat (corr_size cfg)) / real (block_len cfg)))
         \<le> unat (corr_size cfg) div 2"
proof -
  define W where "W = unat (corr_size cfg)"
  let ?x = "- carrier_pos s * real W / real (block_len cfg)"
  note b = offset_bounds [OF assms(1,2) assms(3) [folded W_def]]
  have W: "W < 2 ^ 64"
    unfolding W_def using unsigned_less [of "corr_size cfg", where ?'a = nat] by simp
  then have "real W < 2 ^ 64"
    by (metis of_nat_less_iff of_nat_numeral of_nat_power)
  with b(2) have x64: "?x < 2 ^ 64" by linarith
  note t = c_trunc_offset [OF b]
  have "int (W div 2) < 2 ^ 64" using W by simp
  with t have k: "0 \<le> c_trunc ?x" "c_trunc ?x < 2 ^ 64" by simp_all
  have "float_to_size_t ext ?x = word_of_int (c_trunc ?x)"
    using b(1) x64 by (simp add: float_to_size_t_def)
  moreover have "unat (word_of_int (c_trunc ?x) :: size_t) = nat (c_trunc ?x)"
    using k by (simp add: unat_eq_nat_uint uint_word_of_int)
  ultimately have "unat (float_to_size_t ext ?x) \<le> W div 2" using t by simp
  then show ?thesis unfolding W_def .
qed

text \<open>
  Where the split point stays in range. \<open>fft_shift\<close> computes the split point
  \<open>(len+1)/2 + carrier_offset\<close> in \<open>size_t\<close> and does not check it; the split point is at
  most \<open>len\<close>, and both multiplies stay inside the buffers, when \<open>carrier_offset\<close> is at
  most \<open>len / 2\<close>. In the call of the cycle extractor this is the case when the carrier
  position is at least \<open>-B/2\<close> and below \<open>B/W\<close>, where the converted value
  \<open>-carrier_position * W / B\<close> is above \<open>-1\<close> and the conversion truncates it.
\<close>

lemma split_point_in_range:
  "(unat carrier_offset \<le> unat len div 2 \<longrightarrow>
      pos_len len carrier_offset \<le> len \<and>
      (\<exists>dest. fft_shift src len shift_freq shift_phase carrier_offset = Inr dest)) \<and>
   (0 < block_len cfg \<and> - (real (block_len cfg) / 2) \<le> carrier_pos s \<and>
    carrier_pos s * real (unat (corr_size cfg)) < real (block_len cfg) \<longrightarrow>
      pos_len (corr_size cfg)
        (float_to_size_t ext
           (- carrier_pos s * real (unat (corr_size cfg)) / real (block_len cfg)))
        \<le> corr_size cfg)"
  using pos_len_le [of carrier_offset len]
    fft_shift_in_bounds [of len carrier_offset src shift_freq shift_phase]
    extractor_offset [of cfg s ext, THEN pos_len_le]
  by blast

lemma split_point_in_range_example:
  "pos_len 1024 (float_to_size_t example_ext
      (- carrier_pos (blank\<lparr>carrier_pos := - 948\<rparr>)
         * real (unat (corr_size (example_cfg\<lparr>block_len := 8192, corr_size := 1024\<rparr>)))
         / real (block_len (example_cfg\<lparr>block_len := 8192, corr_size := 1024\<rparr>)))) = 630 \<and>
   (630 :: size_t) \<le> 1024 \<and>
   (\<exists>dest. fft_shift [] 1024 0 0 118 = Inr dest)"
  using split_point_in_range [where carrier_offset = 118 and len = 1024 and src = "[]"
      and shift_freq = 0 and shift_phase = 0 and ext = example_ext
      and cfg = "example_cfg\<lparr>block_len := 8192, corr_size := 1024\<rparr>"
      and s = "blank\<lparr>carrier_pos := - 948\<rparr>"]
  by (simp add: eval_defs)

lemma pos_len_minus_le:
  fixes w :: size_t
  assumes "k \<le> unat w div 2"
  shows "pos_len w (- of_nat k) \<le> w"
proof (cases "unat w + 1 < 2 ^ 64")
  case False
  have "unat w < 2 ^ 64" using unsigned_less [of w, where ?'a = nat] by simp
  with False have "unat w = 2 ^ 64 - 1" by simp
  moreover have "unat (pos_len w (- of_nat k)) < 2 ^ 64"
    using unsigned_less [of "pos_len w (- of_nat k)", where ?'a = nat] by simp
  ultimately show ?thesis by (simp add: word_le_nat_alt)
next
  case True
  then have u1: "unat (w + 1) = unat w + 1" by (simp add: unat_word_ariths)
  have h: "unat ((w + 1) div 2) = (unat w + 1) div 2" by (simp add: unat_div u1)
  have kk: "unat (of_nat k :: size_t) = k" using assms True by (simp add: unat_of_nat)
  have le: "(of_nat k :: size_t) \<le> (w + 1) div 2" using assms by (simp add: word_le_nat_alt h kk)
  have "unat ((w + 1) div 2 - of_nat k) = (unat w + 1) div 2 - k"
    using le by (simp add: unat_sub h kk)
  then show ?thesis using assms by (simp add: pos_len_def word_le_nat_alt)
qed

lemma c_trunc_nonpos:
  assumes "- (real n / 2) \<le> x" "x \<le> 0"
  shows "\<exists>k. c_trunc x = - int k \<and> k \<le> n div 2"
proof -
  have c: "c_trunc x = \<lceil>x\<rceil>"
    using assms(2) by (cases "x = 0") (simp_all add: c_trunc_def)
  have "\<lceil>x\<rceil> \<le> 0" using assms(2) by (simp add: ceiling_le_iff)
  moreover have "- int (n div 2) \<le> \<lceil>x\<rceil>"
  proof -
    have "\<lfloor>- x\<rfloor> \<le> \<lfloor>real n / 2\<rfloor>" using assms(1) by (intro floor_mono) simp
    also have "\<lfloor>real n / 2\<rfloor> = int (n div 2)"
      by (metis floor_divide_of_nat_eq of_nat_numeral)
    finally show ?thesis by (simp add: ceiling_def)
  qed
  ultimately have "c_trunc x = - int (nat (- \<lceil>x\<rceil>)) \<and> nat (- \<lceil>x\<rceil>) \<le> n div 2"
    using c by simp
  then show ?thesis by blast
qed

text \<open>
  For a carrier position from 0 to \<open>B/2\<close> the value \<open>-carrier_position * W / B\<close> lies
  between \<open>-W/2\<close> and 0. Above \<open>-1\<close> it is truncated to 0. From \<open>-1\<close> down it is outside
  what \<open>size_t\<close> holds; where the conversion of such a value wraps modulo \<open>2^64\<close>, the sum
  in \<open>fft_shift\<close> wraps back and the split point is in range.
\<close>

lemma split_point_positive_carrier:
  assumes B: "0 < block_len cfg"
    and cp: "0 \<le> carrier_pos s" "carrier_pos s \<le> real (block_len cfg) / 2"
    and wrap: "undefined_size_t ext
                 (- carrier_pos s * real (unat (corr_size cfg)) / real (block_len cfg))
               = word_of_int (c_trunc
                 (- carrier_pos s * real (unat (corr_size cfg)) / real (block_len cfg)))"
  shows "pos_len (corr_size cfg)
           (float_to_size_t ext
              (- carrier_pos s * real (unat (corr_size cfg)) / real (block_len cfg)))
         \<le> corr_size cfg"
proof -
  define W where "W = unat (corr_size cfg)"
  let ?x = "- carrier_pos s * real W / real (block_len cfg)"
  have rB: "0 < real (block_len cfg)" using B by simp
  have "carrier_pos s * real W \<le> real (block_len cfg) / 2 * real W"
    using cp(2) by (intro mult_right_mono) simp_all
  then have "carrier_pos s * real W / real (block_len cfg)
      \<le> real (block_len cfg) / 2 * real W / real (block_len cfg)"
    using rB by (intro divide_right_mono) simp_all
  also have "\<dots> = real W / 2" using rB by simp
  finally have lo: "- (real W / 2) \<le> ?x" by simp
  have "0 \<le> carrier_pos s * real W / real (block_len cfg)" using cp(1) by simp
  then have hi: "?x \<le> 0" by simp
  from c_trunc_nonpos [OF lo hi] obtain k where k: "c_trunc ?x = - int k" "k \<le> W div 2"
    by blast
  have "float_to_size_t ext ?x = word_of_int (c_trunc ?x)"
    using wrap [folded W_def] by (simp only: float_to_size_t_def if_split) simp
  then have "float_to_size_t ext ?x = - of_nat k" by (simp only: k(1)) simp
  moreover have "pos_len (corr_size cfg) (- of_nat k) \<le> corr_size cfg"
    using k(2) by (intro pos_len_minus_le) (simp add: W_def)
  ultimately have "pos_len (corr_size cfg) (float_to_size_t ext ?x) \<le> corr_size cfg"
    by (simp only:)
  then show ?thesis unfolding W_def .
qed

text \<open>
  C10 (the code at a failing input): the claim bounds the split point by \<open>len\<close> for every
  call. \<open>fft_shift\<close> adds the offset without a check, and nothing keeps the carrier
  position that the extractor turns into the offset above \<open>-B/2\<close>: while the carrier is
  tracked, each block adds \<open>0.2 * angle_diff\<close> to it, and the test for the loss of
  tracking lets every negative angle difference pass. On the run with the drifting
  carrier the first block locks the carrier at \<open>-0.5\<close> and the next ten take it to \<open>-1\<close>;
  the last block takes it to \<open>-1.1\<close> and finds a beacon, the extractor passes the offset 1
  for correlation blocks of one sample, the split point is 2, and the multiplies of
  \<open>fft_shift\<close> leave the buffers of one element. With the correlation blocks of 1024
  samples that \<open>main\<close> asks for and blocks of 8192 samples, a carrier position of \<open>-4608\<close>
  gives the offset 576 and the split point 1088, beyond the 1024 elements of the buffers.
\<close>

theorem split_point_beyond_buffers:
  "(\<exists>s. run_blocks drift_ext drift_cfg (started drift_cfg True blank) (butlast drift_blocks)
          = Inr (True, s) \<and>
        detected_carrier s \<and> carrier_pos s = - 1 \<and>
        carrier_pos (snd (recover_carrier drift_ext drift_cfg (last drift_blocks)
                 (s\<lparr>block_idx := block_idx s + 1\<rparr>))) = - 11/10) \<and>
   main_loop drift_ext drift_cfg (started drift_cfg True blank) drift_blocks = Inl OutOfBounds \<and>
   float_to_size_t drift_ext
      (- (- 11/10) * real (unat (corr_size drift_cfg)) / real (block_len drift_cfg)) = 1 \<and>
   corr_size drift_cfg = 1 \<and>
   pos_len (corr_size drift_cfg) 1 = 2 \<and>
   fft_shift [0] (corr_size drift_cfg) 0 0 1 = Inl OutOfBounds \<and>
   float_to_size_t example_ext
      (- carrier_pos (blank\<lparr>carrier_pos := - 4608\<rparr>)
         * real (unat (corr_size (example_cfg\<lparr>block_len := 8192, corr_size := 1024\<rparr>)))
         / real (block_len (example_cfg\<lparr>block_len := 8192, corr_size := 1024\<rparr>))) = 576 \<and>
   pos_len 1024 576 = 1088 \<and>
   \<not> pos_len 1024 576 \<le> (1024 :: size_t) \<and>
   extract_cycle example_ext (example_cfg\<lparr>block_len := 8192, corr_size := 1024\<rparr>)
     (blank\<lparr>carrier_pos := - 4608\<rparr>) = Inl OutOfBounds"
  by (simp add: eval_defs drift_ext_def drift_cfg_def drift_block_def drift_blocks_def
      Arg_minus_one cis_mult_left cis_mult cis_minus_pi)

end
